theory Spec2Isabelle
  imports Main "HOL-Library.Sublist" "HOL-Library.Word"
begin

section \<open>Python strings\<close>

text \<open>
  A Python \<open>str\<close> is modelled as a \<open>string\<close>; one \<open>char\<close> stands for one character of the
  text (a code point below 256), so \<open>length\<close> counts what Python's \<open>len\<close> counts.
  \<open>py_isspace\<close> lists the characters below 256 for which \<open>str.isspace\<close> holds; these are the
  characters that \<open>str.strip()\<close> removes.
\<close>

definition py_isspace :: "char \<Rightarrow> bool" where
  "py_isspace c = (of_char c \<in> {9, 10, 11, 12, 13, 28, 29, 30, 31, 32, 133, 160 :: nat})"

definition py_strip :: "string \<Rightarrow> string" where
  "py_strip s = rev (dropWhile py_isspace (rev (dropWhile py_isspace s)))"

text \<open>\<open>occurrences sub s\<close>: the indices at which \<open>sub\<close> occurs in \<open>s\<close>, ascending.\<close>

definition occurrences :: "string \<Rightarrow> string \<Rightarrow> nat list" where
  "occurrences sub s = filter (\<lambda>i. prefix sub (drop i s)) [0..<Suc (length s)]"

text \<open>\<open>s.find(sub)\<close> and \<open>s.rfind(sub)\<close>: lowest and highest index, \<open>-1\<close> when there is none.\<close>

definition py_find :: "string \<Rightarrow> string \<Rightarrow> int" where
  "py_find s sub = (case occurrences sub s of [] \<Rightarrow> - 1 | i # _ \<Rightarrow> int i)"

definition py_rfind :: "string \<Rightarrow> string \<Rightarrow> int" where
  "py_rfind s sub = (case rev (occurrences sub s) of [] \<Rightarrow> - 1 | i # _ \<Rightarrow> int i)"

text \<open>
  \<open>s.replace(old, new)\<close> for a non-empty \<open>old\<close>: the occurrences are taken from the left
  and do not overlap. (The source only calls it with the two fence markers.)
\<close>

fun py_replace :: "string \<Rightarrow> string \<Rightarrow> string \<Rightarrow> string" where
  "py_replace [] old new = []"
| "py_replace (c # cs) old new =
     (if old \<noteq> [] \<and> prefix old (c # cs)
      then new @ py_replace (drop (length old - 1) cs) old new
      else c # py_replace cs old new)"

text \<open>\<open>s[a:b]\<close>: a negative index counts from the end, and both ends are clamped.\<close>

definition py_index :: "nat \<Rightarrow> int \<Rightarrow> nat" where
  "py_index n i = (if i < 0 then nat (max 0 (int n + i)) else min n (nat i))"

definition py_slice :: "string \<Rightarrow> int \<Rightarrow> int \<Rightarrow> string" where
  "py_slice s a b =
     (let lo = py_index (length s) a; hi = py_index (length s) b
      in take (hi - lo) (drop lo s))"

text \<open>\<open>str.lower()\<close> on one character: the ASCII and the Latin-1 capital letters.\<close>

definition py_lower :: "char \<Rightarrow> char" where
  "py_lower c =
     (let n = (of_char c :: nat)
      in if (65 \<le> n \<and> n \<le> 90) \<or> (192 \<le> n \<and> n \<le> 222 \<and> n \<noteq> 215)
         then char_of (n + 32) else c)"

text \<open>\<open>str(n)\<close> for a length, as the log messages print it.\<close>

fun str_nat :: "nat \<Rightarrow> string" where
  "str_nat n =
     (if n < 10 then [char_of (48 + n)]
      else str_nat (n div 10) @ [char_of (48 + n mod 10)])"

section \<open>\<open>os.path.splitext\<close>\<close>

text \<open>
  The POSIX version: the extension starts at the last dot after the last \<open>/\<close>, unless
  every character between that \<open>/\<close> and the dot is a dot too. \<open>splitext_scan\<close> is the
  loop that skips the leading dots; it answers whether a character other than a dot
  comes before the last dot.
\<close>

function splitext_scan :: "string \<Rightarrow> int \<Rightarrow> int \<Rightarrow> bool" where
  "splitext_scan p filenameIndex dotIndex =
     (if filenameIndex < dotIndex
      then (if py_slice p filenameIndex (filenameIndex + 1) \<noteq> ''.'' then True
            else splitext_scan p (filenameIndex + 1) dotIndex)
      else False)"
  by pat_completeness auto
termination
  by (relation "measure (\<lambda>(p, filenameIndex, dotIndex). nat (dotIndex - filenameIndex))") auto

definition splitext :: "string \<Rightarrow> string \<times> string" where
  "splitext p =
     (let sepIndex = py_rfind p ''/'';
          dotIndex = py_rfind p ''.''
      in if dotIndex > sepIndex \<and> splitext_scan p (sepIndex + 1) dotIndex
         then (py_slice p 0 dotIndex, py_slice p dotIndex (int (length p)))
         else (p, []))"

section \<open>Exceptions, effects and the libraries the view calls\<close>

text \<open>
  An exception carries its \<open>str(e)\<close>. \<open>JSONDecodeError\<close> is the only class the source
  tells apart (line 233); \<open>Exception\<close> stands for an exception of any other class that
  derives from \<open>Exception\<close>, which is what both \<open>except Exception\<close> clauses catch.
\<close>

datatype exn = JSONDecodeError string | Exception string

fun str_exn :: "exn \<Rightarrow> string" where
  "str_exn (JSONDecodeError s) = s"
| "str_exn (Exception s) = s"

datatype level = INFO | WARNING | ERROR

text \<open>
  The prompt is a fixed template (lines 137 to 208) with four holes; a prompt is
  recorded by what fills them. The third is the job description, or the template's
  placeholder sentence when the job description is empty.
\<close>

datatype prompt = Prompt (prompt_job_category: string) (prompt_specific_role: string)
  (prompt_job_description: string) (prompt_resume_text: string)

text \<open>What a call does besides returning: the calls to the libraries and the log lines, in order.\<close>

datatype event =
    Log level string
  | Read_file
  | Open_PdfReader
  | Page_extract_text nat
  | Open_Document
  | Generate_content prompt
  | Json_loads string

type_synonym byte = "8 word"

text \<open>
  The uploaded file: its name, and what \<open>read()\<close> gives. The libraries: \<open>PdfReader\<close> gives
  the pages, each page being what its \<open>extract_text()\<close> gives; \<open>Document\<close> gives the text
  of each paragraph; \<open>generate_content\<close> gives \<open>response.text\<close>; \<open>json_loads\<close> is
  \<open>json.loads\<close>, with any type \<open>'j\<close> of parsed values. Each of them may raise.
\<close>

record resume_file =
  name :: string
  read :: "exn + byte list"

record 'j libs =
  PdfReader :: "byte list \<Rightarrow> exn + (exn + string) list"
  Document :: "byte list \<Rightarrow> exn + string list"
  generate_content :: "prompt \<Rightarrow> exn + string"
  json_loads :: "string \<Rightarrow> exn + 'j"

section \<open>\<open>AnalyzeResumeView._extract_text_from_resume\<close>\<close>

text \<open>Lines 110 to 113: the loop over the pages, \<open>i\<close> the index of the next page.\<close>

fun pdf_pages :: "(exn + string) list \<Rightarrow> nat \<Rightarrow> string \<Rightarrow> event list \<times> (exn + string)" where
  "pdf_pages [] i text = ([], Inr text)"
| "pdf_pages (page # pages) i text =
     (case page of
        Inl e \<Rightarrow> ([Page_extract_text i], Inl e)
      | Inr extracted_page_text \<Rightarrow>
          (let (evs, r) = pdf_pages pages (Suc i)
                 (if extracted_page_text \<noteq> [] then text @ extracted_page_text @ [CHR 0x0A]
                  else text)
           in (Page_extract_text i # evs, r)))"

text \<open>Lines 116 and 117: the loop over the paragraphs.\<close>

fun docx_paragraphs :: "string list \<Rightarrow> string \<Rightarrow> string" where
  "docx_paragraphs [] text = text"
| "docx_paragraphs (paragraph # paragraphs) text =
     docx_paragraphs paragraphs (text @ paragraph @ [CHR 0x0A])"

text \<open>
  The body of the \<open>try\<close> (lines 105 to 120) either raises, returns \<open>None\<close> from inside
  (line 120), or falls through to line 125 with the text.
\<close>

datatype body_exit = Return_None | Fall_through string

definition extract_body ::
  "'j libs \<Rightarrow> resume_file \<Rightarrow> string \<Rightarrow> event list \<times> (exn + body_exit)" where
  "extract_body libs resume_file file_extension =
     (case read resume_file of
        Inl e \<Rightarrow> ([Read_file], Inl e)
      | Inr content \<Rightarrow>
          if file_extension = ''.pdf'' then
            (case PdfReader libs content of
               Inl e \<Rightarrow> ([Read_file, Open_PdfReader], Inl e)
             | Inr pages \<Rightarrow>
                 (let (evs, r) = pdf_pages pages 0 []
                  in ([Read_file, Open_PdfReader] @ evs, map_sum id Fall_through r)))
          else if file_extension = ''.docx'' then
            (case Document libs content of
               Inl e \<Rightarrow> ([Read_file, Open_Document], Inl e)
             | Inr paragraphs \<Rightarrow>
                 ([Read_file, Open_Document], Inr (Fall_through (docx_paragraphs paragraphs []))))
          else
            ([Read_file,
              Log WARNING (''Unsupported file type for text extraction: '' @ file_extension)],
             Inr Return_None))"

text \<open>
  The whole method: the result is \<open>Inl e\<close> when it raises \<open>e\<close>, \<open>Inr None\<close> when it returns
  \<open>None\<close>, and \<open>Inr (Some text)\<close> when it returns a string.
\<close>

definition file_extension_of :: "resume_file \<Rightarrow> string" where
  "file_extension_of resume_file = map py_lower (snd (splitext (name resume_file)))"

definition extract_text_from_resume ::
  "'j libs \<Rightarrow> resume_file \<Rightarrow> event list \<times> (exn + string option)" where
  "extract_text_from_resume libs resume_file =
     (let file_extension = file_extension_of resume_file;
          (evs, r) = extract_body libs resume_file file_extension
      in case r of
           Inl e \<Rightarrow>
             (evs @ [Log ERROR (''Error extracting text from '' @ name resume_file @ '' (''
                       @ file_extension @ ''): '' @ str_exn e)],
              Inr None)
         | Inr Return_None \<Rightarrow> (evs, Inr None)
         | Inr (Fall_through text) \<Rightarrow> (evs, Inr (Some (py_strip text))))"

section \<open>\<open>AnalyzeResumeView._get_gemini_analysis\<close>\<close>

text \<open>Lines 213 to 228: the text that is handed to the JSON parser.\<close>

definition strip_fences :: "string \<Rightarrow> event list \<times> string" where
  "strip_fences text_response =
     (if prefix ''```json'' (py_strip text_response) then
        (let json_start = py_find text_response ''```json'' + int (length ''```json'');
             json_end = py_rfind text_response ''```''
         in if json_end > json_start
            then ([], py_strip (py_slice text_response json_start json_end))
            else ([Log WARNING
                    ''JSON markdown block started but not properly closed. Attempting to parse full text.''],
                  py_strip (py_replace (py_replace text_response ''```json'' []) ''```'' [])))
      else if prefix ''```'' (py_strip text_response) then
        (let json_start = py_find text_response ''```'' + int (length ''```'');
             json_end = py_rfind text_response ''```''
         in if json_end > json_start
            then ([], py_strip (py_slice text_response json_start json_end))
            else ([Log WARNING
                    ''Generic markdown block started but not properly closed. Attempting to parse full text.''],
                  py_strip (py_replace text_response ''```'' [])))
      else ([], text_response))"

text \<open>The message of the exception raised at line 236.\<close>

definition parse_error_message :: "string \<Rightarrow> string \<Rightarrow> string" where
  "parse_error_message detail candidate =
     ''AI response format error: Could not parse AI response as JSON. Details: '' @ detail
       @ ''. Raw response start: '' @ take 500 candidate @ ''...''"

text \<open>Lines 230 to 236.\<close>

definition parse_report :: "(string \<Rightarrow> exn + 'j) \<Rightarrow> string \<Rightarrow> event list \<times> (exn + 'j)" where
  "parse_report loads text_response =
     (case loads text_response of
        Inr parsed_report \<Rightarrow> ([Json_loads text_response], Inr parsed_report)
      | Inl (JSONDecodeError e) \<Rightarrow>
          ([Json_loads text_response,
            Log ERROR (''Failed to parse Gemini response as JSON: '' @ e),
            Log ERROR (''Raw Gemini response (attempted parse):'' @ [CHR 0x0A] @ text_response)],
           Inl (Exception (parse_error_message e text_response)))
      | Inl (Exception e) \<Rightarrow> ([Json_loads text_response], Inl (Exception e)))"

text \<open>Lines 213 to 236 together: what the specification calls the Response Sanitizer.\<close>

definition response_sanitizer ::
  "(string \<Rightarrow> exn + 'j) \<Rightarrow> string \<Rightarrow> event list \<times> (exn + 'j)" where
  "response_sanitizer loads text_response =
     (let (evs, candidate) = strip_fences text_response;
          (evs', r) = parse_report loads candidate
      in (evs @ evs', r))"

definition build_prompt :: "string \<Rightarrow> string \<Rightarrow> string \<Rightarrow> string \<Rightarrow> prompt" where
  "build_prompt resume_text job_description job_category specific_role =
     Prompt job_category specific_role
       (if job_description \<noteq> [] then job_description
        else ''No specific job description provided. Analyze based on general industry standards for the specified Job Category and Specific Job Role.'')
       resume_text"

definition get_gemini_analysis ::
  "'j libs \<Rightarrow> string \<Rightarrow> string \<Rightarrow> string \<Rightarrow> string \<Rightarrow> event list \<times> (exn + 'j)" where
  "get_gemini_analysis libs resume_text job_description job_category specific_role =
     (let prompt = build_prompt resume_text job_description job_category specific_role;
          evs0 = [Log INFO ''Sending prompt to Gemini API with detailed request...'',
                  Generate_content prompt]
      in case generate_content libs prompt of
           Inl e \<Rightarrow> (evs0, Inl e)
         | Inr text_response \<Rightarrow>
             (let (evs, r) = response_sanitizer (json_loads libs) text_response
              in (evs0 @ evs, r)))"

section \<open>\<open>AnalyzeResumeView.post\<close>\<close>

record request =
  FILES :: "string \<rightharpoonup> resume_file"
  data :: "string \<rightharpoonup> string"

text \<open>The \<open>Response\<close>: the HTTP status and the three keys of the body.\<close>

record 'j response =
  status :: nat
  success :: bool
  message :: string
  report :: "'j option"

text \<open>\<open>request.data.get(key, default)\<close>.\<close>

definition data_get :: "request \<Rightarrow> string \<Rightarrow> string \<Rightarrow> string" where
  "data_get request key dflt = (case data request key of None \<Rightarrow> dflt | Some v \<Rightarrow> v)"

text \<open>
  \<open>not resume_file\<close> (line 56): there is no such file, or the file object is false, which
  for an uploaded file means that its name is empty.
\<close>

definition not_resume_file :: "resume_file option \<Rightarrow> bool" where
  "not_resume_file resume_file = (case resume_file of None \<Rightarrow> True | Some f \<Rightarrow> name f = [])"

definition no_file_response :: "'j response" where
  "no_file_response =
     \<lparr>status = 400, success = False,
      message = ''No resume file provided. Please upload a PDF or DOCX.'', report = None\<rparr>"

definition extraction_failed_response :: "'j response" where
  "extraction_failed_response =
     \<lparr>status = 400, success = False,
      message = ''Could not extract text from resume file. Please ensure it's a valid PDF or DOCX and not scanned image.'',
      report = None\<rparr>"

definition post :: "'j libs \<Rightarrow> request \<Rightarrow> event list \<times> (exn + 'j response)" where
  "post libs request =
     (let evs0 = [Log INFO ''Received POST request for resume analysis.''];
          resume_file = FILES request ''resume_file''
      in if not_resume_file resume_file then
           (evs0 @ [Log WARNING ''No resume file provided in the request.''],
            Inr no_file_response)
         else
           (let job_description = data_get request ''job_description'' [];
                job_category = data_get request ''job_category'' ''General'';
                specific_role = data_get request ''specific_role'' ''Applicant'';
                evs1 = evs0 @
                  [Log INFO (''Job Description length: '' @ str_nat (length job_description)
                             @ '' chars.''),
                   Log INFO (''Job Category: '' @ job_category @ '', Specific Role: ''
                             @ specific_role)];
                (evs2, extracted) = extract_text_from_resume libs (the resume_file)
            in case extracted of
                 Inl e \<Rightarrow> (evs1 @ evs2, Inl e)
               | Inr resume_text \<Rightarrow>
                   if resume_text = None \<or> resume_text = Some [] then
                     (evs1 @ evs2 @ [Log ERROR ''Failed to extract text from resume.''],
                      Inr extraction_failed_response)
                   else
                     (let evs3 = evs1 @ evs2 @
                            [Log INFO (''Extracted '' @ str_nat (length (the resume_text))
                                       @ '' characters from resume.'')];
                          (evs4, analysed) = get_gemini_analysis libs (the resume_text)
                             job_description job_category specific_role
                      in case analysed of
                           Inr parsed_report \<Rightarrow>
                             (evs3 @ evs4
                                @ [Log INFO ''Successfully received analysis from Gemini API.''],
                              Inr \<lparr>status = 200, success = True,
                                   message = ''Analysis complete.'', report = Some parsed_report\<rparr>)
                         | Inl e \<Rightarrow>
                             (evs3 @ evs4 @ [Log ERROR ''Error during Gemini API call:''],
                              Inr \<lparr>status = 500, success = False,
                                   message = ''An error occurred during analysis: '' @ str_exn e
                                     @ ''. Check server logs for details.'',
                                   report = None\<rparr>))))"

section \<open>Notions used to state the properties\<close>

text \<open>A text made of blanks only.\<close>

definition all_space :: "string \<Rightarrow> bool" where
  "all_space s = list_all py_isspace s"

text \<open>
  \<open>json_text loads j\<close>: the parser accepts \<open>j\<close>, and \<open>j\<close> behaves as a JSON document
  does under \<open>json.loads\<close>: the blanks around it do not matter to the parser, and its
  first character is neither a backquote nor the letter \<open>j\<close> (a JSON document starts
  with a brace, a bracket, a quote, a sign, a digit or one of the literals).
\<close>

definition json_text :: "(string \<Rightarrow> exn + 'j) \<Rightarrow> string \<Rightarrow> bool" where
  "json_text loads j =
     (\<not> isl (loads j) \<and> loads (py_strip j) = loads j
      \<and> \<not> prefix ''`'' (py_strip j) \<and> \<not> prefix ''j'' j)"

text \<open>
  The test of lines 216 and 224 for the opening marker in use: the last fence lies
  after the end of the first opening marker.
\<close>

definition closing_fence_found :: "string \<Rightarrow> string \<Rightarrow> bool" where
  "closing_fence_found marker text_response =
     (py_rfind text_response ''```'' > py_find text_response marker + int (length marker))"

section \<open>A decoder for a fragment of JSON\<close>

text \<open>
  \<open>demo_loads\<close> decodes the literals, integers, strings without escapes, arrays and
  objects. It stands for \<open>json.loads\<close> where a property is applied to a concrete text.
\<close>

datatype json = JNull | JBool bool | JInt int | JString string
  | JArray "json list" | JObject "(string \<times> json) list"

definition json_ws :: "char \<Rightarrow> bool" where
  "json_ws c = (c \<in> set [CHR '' '', CHR 0x09, CHR 0x0A, CHR 0x0D])"

definition is_digit :: "char \<Rightarrow> bool" where
  "is_digit c = (48 \<le> (of_char c :: nat) \<and> (of_char c :: nat) \<le> 57)"

definition digits_value :: "string \<Rightarrow> nat" where
  "digits_value ds = foldl (\<lambda>n c. 10 * n + (of_char c - 48)) 0 ds"

definition scan_string :: "string \<Rightarrow> (string \<times> string) option" where
  "scan_string s =
     (let body = takeWhile (\<lambda>c. c \<noteq> CHR 0x22) s; rest = dropWhile (\<lambda>c. c \<noteq> CHR 0x22) s
      in if rest = [] \<or> CHR 0x5C \<in> set body then None else Some (body, tl rest))"

definition scan_number :: "string \<Rightarrow> (json \<times> string) option" where
  "scan_number s =
     (let neg = prefix ''-'' s; u = (if neg then tl s else s);
          ds = takeWhile is_digit u
      in if ds = [] then None
         else Some (JInt (if neg then - int (digits_value ds) else int (digits_value ds)),
                    dropWhile is_digit u))"

fun scan_value :: "nat \<Rightarrow> string \<Rightarrow> (json \<times> string) option"
  and scan_items :: "nat \<Rightarrow> string \<Rightarrow> json list \<Rightarrow> (json \<times> string) option"
  and scan_members :: "nat \<Rightarrow> string \<Rightarrow> (string \<times> json) list \<Rightarrow> (json \<times> string) option" where
  "scan_value 0 s = None"
| "scan_value (Suc k) s =
     (let t = dropWhile json_ws s
      in if prefix ''null'' t then Some (JNull, drop 4 t)
         else if prefix ''true'' t then Some (JBool True, drop 4 t)
         else if prefix ''false'' t then Some (JBool False, drop 5 t)
         else if prefix [CHR 0x22] t then
           (case scan_string (tl t) of None \<Rightarrow> None | Some (b, r) \<Rightarrow> Some (JString b, r))
         else if prefix ''['' t then
           (if prefix '']'' (dropWhile json_ws (tl t))
            then Some (JArray [], tl (dropWhile json_ws (tl t)))
            else scan_items k (tl t) [])
         else if prefix ''{'' t then
           (if prefix ''}'' (dropWhile json_ws (tl t))
            then Some (JObject [], tl (dropWhile json_ws (tl t)))
            else scan_members k (tl t) [])
         else scan_number t)"
| "scan_items 0 s acc = None"
| "scan_items (Suc k) s acc =
     (case scan_value k s of
        None \<Rightarrow> None
      | Some (v, r) \<Rightarrow>
          (let t = dropWhile json_ws r
           in if prefix '','' t then scan_items k (tl t) (acc @ [v])
              else if prefix '']'' t then Some (JArray (acc @ [v]), tl t)
              else None))"
| "scan_members 0 s acc = None"
| "scan_members (Suc k) s acc =
     (let t = dropWhile json_ws s
      in if \<not> prefix [CHR 0x22] t then None
         else (case scan_string (tl t) of
                 None \<Rightarrow> None
               | Some (key, r) \<Rightarrow>
                   (let u = dropWhile json_ws r
                    in if \<not> prefix '':'' u then None
                       else (case scan_value k (tl u) of
                               None \<Rightarrow> None
                             | Some (v, r') \<Rightarrow>
                                 (let w = dropWhile json_ws r'
                                  in if prefix '','' w then scan_members k (tl w) (acc @ [(key, v)])
                                     else if prefix ''}'' w then Some (JObject (acc @ [(key, v)]), tl w)
                                     else None)))))"

text \<open>
  The detail of the decoder's error is the one of \<open>json.loads\<close> when the text is empty
  or its first character cannot start a value; elsewhere it carries no position.
\<close>

definition value_start :: "char \<Rightarrow> bool" where
  "value_start c = (json_ws c \<or> is_digit c \<or> c = CHR 0x22 \<or> c \<in> set ''{[-tfnNI'')"

definition demo_loads :: "string \<Rightarrow> exn + json" where
  "demo_loads s =
     (case scan_value (Suc (length s)) s of
        None \<Rightarrow>
          Inl (JSONDecodeError
            (if s = [] \<or> \<not> value_start (hd s)
             then ''Expecting value: line 1 column 1 (char 0)'' else ''Expecting value''))
      | Some (v, r) \<Rightarrow>
          if dropWhile json_ws r = [] then Inr v else Inl (JSONDecodeError ''Extra data''))"

text \<open>
  \<open>json.loads\<close> also fails in ways that are not a \<open>JSONDecodeError\<close>: a text that opens
  more arrays than the interpreter's recursion limit allows (1000 by default) makes
  it raise \<open>RecursionError\<close>. \<open>recursion_limited_loads\<close> is the decoder with that limit,
  and \<open>deep_reply\<close> a text of 100000 opening brackets.
\<close>

definition recursion_limited_loads :: "string \<Rightarrow> exn + json" where
  "recursion_limited_loads s =
     (if 1000 < length (takeWhile (\<lambda>c. c = CHR ''['') s)
      then Inl (Exception
        ''maximum recursion depth exceeded while decoding a JSON array from a unicode string'')
      else demo_loads s)"

definition deep_reply :: string where
  "deep_reply = replicate 100000 CHR ''[''"

text \<open>A report text whose score is out of range and which lacks most of the keys.\<close>

definition sample_json :: string where
  "sample_json = ''{'' @ [CHR 0x22] @ ''overall_fit_score'' @ [CHR 0x22] @ '': 250, ''
     @ [CHR 0x22] @ ''strengths'' @ [CHR 0x22] @ '': []}''"

definition sample_report :: json where
  "sample_report = JObject [(''overall_fit_score'', JInt 250), (''strengths'', JArray [])]"

text \<open>
  Libraries and inputs for concrete cases: \<open>demo_libs\<close> opens every file with the given
  pages and paragraphs and answers every prompt with the given reply; \<open>broken_libs\<close>
  raises in every call; \<open>demo_file\<close> is a readable file of the given name.
\<close>

definition demo_libs :: "(exn + string) list \<Rightarrow> string list \<Rightarrow> string \<Rightarrow> json libs" where
  "demo_libs pages paragraphs reply =
     \<lparr>PdfReader = (\<lambda>content. Inr pages), Document = (\<lambda>content. Inr paragraphs),
      generate_content = (\<lambda>prompt. Inr reply), json_loads = demo_loads\<rparr>"

definition broken_libs :: "json libs" where
  "broken_libs =
     \<lparr>PdfReader = (\<lambda>content. Inl (Exception ''EOF marker not found'')),
      Document = (\<lambda>content. Inl (Exception ''File is not a zip file'')),
      generate_content = (\<lambda>prompt. Inl (Exception ''503 Service Unavailable'')),
      json_loads = demo_loads\<rparr>"

definition demo_file :: "string \<Rightarrow> resume_file" where
  "demo_file n = \<lparr>name = n, read = Inr []\<rparr>"

definition demo_request :: "resume_file \<Rightarrow> request" where
  "demo_request f =
     \<lparr>FILES = [''resume_file'' \<mapsto> f],
      data = [''job_description'' \<mapsto> ''Compilers'', ''specific_role'' \<mapsto> ''Engineer'']\<rparr>"

text \<open>The sample report text inside a \<open>```json\<close> fence, as the model usually replies.\<close>

definition fenced_reply :: string where
  "fenced_reply = ''```json'' @ [CHR 0x0A] @ sample_json @ [CHR 0x0A] @ ''```''"

text \<open>A reply whose fence is opened and never closed.\<close>

definition unclosed_reply :: string where
  "unclosed_reply = ''```json'' @ [CHR 0x0A] @ sample_json"

section \<open>Facts about the string primitives\<close>

lemma all_space_simps [simp]:
  "all_space []" "all_space (c # s) = (py_isspace c \<and> all_space s)"
  "all_space (s @ t) = (all_space s \<and> all_space t)" "all_space (rev s) = all_space s"
  by (auto simp: all_space_def list_all_iff)

lemma all_space_set: "all_space s = (\<forall>c\<in>set s. py_isspace c)"
  by (simp add: all_space_def list_all_iff)

lemma dropWhile_all_space: "all_space w \<Longrightarrow> dropWhile py_isspace (w @ s) = dropWhile py_isspace s"
  by (simp add: all_space_set dropWhile_append2)

lemma py_strip_all_space: "all_space s \<Longrightarrow> py_strip s = []"
proof -
  assume "all_space s"
  then have d: "dropWhile py_isspace s = []"
    by (simp add: all_space_set)
  show ?thesis unfolding py_strip_def d by simp
qed

lemma py_strip_ws_append:
  assumes "all_space w1" "all_space w2"
  shows "py_strip (w1 @ s @ w2) = py_strip s"
proof (cases "all_space s")
  case True
  with assms show ?thesis by (simp add: py_strip_all_space)
next
  case False
  then have ne: "dropWhile py_isspace s \<noteq> []"
    by (simp add: all_space_set)
  from False obtain x where "x \<in> set s" "\<not> py_isspace x"
    by (auto simp: all_space_set)
  then have "dropWhile py_isspace (s @ w2) = dropWhile py_isspace s @ w2"
    by (rule dropWhile_append1)
  then have "dropWhile py_isspace (w1 @ s @ w2) = dropWhile py_isspace s @ w2"
    using assms(1) by (simp add: dropWhile_all_space)
  moreover have "dropWhile py_isspace (rev w2 @ rev (dropWhile py_isspace s))
      = dropWhile py_isspace (rev (dropWhile py_isspace s))"
    using assms(2) by (simp add: dropWhile_all_space)
  ultimately show ?thesis by (simp add: py_strip_def)
qed

lemma py_strip_decomp:
  "\<exists>a b. all_space a \<and> all_space b \<and> s = a @ py_strip s @ b"
proof -
  let ?d = "dropWhile py_isspace s"
  have 1: "s = takeWhile py_isspace s @ ?d" by simp
  have 2: "rev ?d = takeWhile py_isspace (rev ?d) @ dropWhile py_isspace (rev ?d)" by simp
  have "?d = rev (dropWhile py_isspace (rev ?d)) @ rev (takeWhile py_isspace (rev ?d))"
    by (metis 2 rev_append rev_rev_ident)
  then have 3: "?d = py_strip s @ rev (takeWhile py_isspace (rev ?d))"
    by (simp add: py_strip_def)
  have a: "all_space (takeWhile py_isspace s)"
    by (auto simp: all_space_set dest: set_takeWhileD)
  have b: "all_space (rev (takeWhile py_isspace (rev ?d)))"
    by (auto simp: all_space_set dest: set_takeWhileD)
  from 1 3 have "s = takeWhile py_isspace s @ py_strip s @ rev (takeWhile py_isspace (rev ?d))"
    by metis
  with a b show ?thesis by blast
qed

lemma sublist_py_strip: "sublist (py_strip s) s"
  using py_strip_decomp [of s] unfolding sublist_def by metis

lemma py_strip_eq_Nil: "py_strip s = [] \<longleftrightarrow> all_space s"
proof
  assume "py_strip s = []"
  with py_strip_decomp [of s] show "all_space s" by (metis all_space_simps(3) append_Nil)
qed (rule py_strip_all_space)

lemma py_strip_ends:
  assumes "py_strip s \<noteq> []"
  shows "\<not> py_isspace (hd (py_strip s))" "\<not> py_isspace (last (py_strip s))"
proof -
  let ?d = "dropWhile py_isspace s"
  let ?e = "dropWhile py_isspace (rev ?d)"
  from assms have ne: "?e \<noteq> []" by (simp add: py_strip_def)
  then have "\<not> py_isspace (hd ?e)" by (rule hd_dropWhile)
  then show "\<not> py_isspace (last (py_strip s))"
    using ne by (simp add: py_strip_def last_rev)
  have "?d \<noteq> []"
  proof
    assume "?d = []"
    then have "?e = []" by (metis dropWhile.simps(1) rev.simps(1))
    with ne show False by blast
  qed
  then have h: "\<not> py_isspace (hd ?d)" by (rule hd_dropWhile)
  obtain r where r: "?d = rev ?e @ r"
    by (metis append_Nil2 rev_append rev_rev_ident takeWhile_dropWhile_id)
  have "rev ?e \<noteq> []" using ne by (simp only: rev_is_Nil_conv not_False_eq_True)
  then have "hd (rev ?e @ r) = hd (rev ?e)" by (rule hd_append2)
  with r have "hd (rev ?e) = hd ?d" by (simp only:)
  with h show "\<not> py_isspace (hd (py_strip s))" by (simp add: py_strip_def)
qed


lemma occurrences_iff:
  "i \<in> set (occurrences sub s) \<longleftrightarrow> i \<le> length s \<and> prefix sub (drop i s)"
  by (auto simp: occurrences_def simp del: upt_Suc)

lemma upt_split3: "i \<le> n \<Longrightarrow> [0..<Suc n] = [0..<i] @ i # [Suc i..<Suc n]"
  using upt_add_eq_append [of 0 i "Suc n - i"] upt_conv_Cons [of i "Suc n"] by simp

lemma occurrences_split:
  assumes "i \<le> length s" "prefix sub (drop i s)"
  shows "occurrences sub s = filter (\<lambda>k. prefix sub (drop k s)) [0..<i] @ i
           # filter (\<lambda>k. prefix sub (drop k s)) [Suc i..<Suc (length s)]"
  unfolding occurrences_def upt_split3 [OF assms(1)]
  by (simp only: filter_append filter.simps assms(2) if_True)

lemma py_find_first:
  assumes "i \<le> length s" "prefix sub (drop i s)" "\<And>k. k < i \<Longrightarrow> \<not> prefix sub (drop k s)"
  shows "py_find s sub = int i"
proof -
  have "filter (\<lambda>k. prefix sub (drop k s)) [0..<i] = []"
    using assms(3) by (simp add: filter_empty_conv)
  then show ?thesis
    unfolding py_find_def occurrences_split [OF assms(1,2)] by simp
qed

lemma py_rfind_last:
  assumes "i \<le> length s" "prefix sub (drop i s)"
    "\<And>k. i < k \<Longrightarrow> k \<le> length s \<Longrightarrow> \<not> prefix sub (drop k s)"
  shows "py_rfind s sub = int i"
proof -
  have "\<not> prefix sub (drop k s)" if "k \<in> set [Suc i..<Suc (length s)]" for k
  proof -
    from that have "i < k" "k \<le> length s" by auto
    then show ?thesis by (rule assms(3))
  qed
  then have "filter (\<lambda>k. prefix sub (drop k s)) [Suc i..<Suc (length s)] = []"
    unfolding filter_empty_conv by blast
  then show ?thesis
    unfolding py_rfind_def occurrences_split [OF assms(1,2)] by simp
qed

lemma sorted_occurrences: "sorted (occurrences sub s)"
  unfolding occurrences_def by (rule sorted_wrt_filter) (rule sorted_upt)

lemma py_rfind_ge:
  assumes "k \<le> length s" "prefix sub (drop k s)"
  shows "int k \<le> py_rfind s sub"
proof -
  let ?os = "occurrences sub s"
  from assms have k: "k \<in> set ?os" by (simp add: occurrences_iff)
  then have ne: "?os \<noteq> []" by auto
  then obtain b where b: "?os = b @ [last ?os]"
    by (metis append_butlast_last_id)
  have "rev ?os = last ?os # rev b"
    by (subst b) simp
  then have r: "py_rfind s sub = int (last ?os)"
    by (simp only: py_rfind_def list.case)
  have "sorted (b @ [last ?os])" using sorted_occurrences [of sub s] b by simp
  then have "\<forall>x\<in>set b. x \<le> last ?os" by (simp add: sorted_append)
  moreover have "k \<in> set b \<or> k = last ?os" using k b by (metis Un_iff set_append empty_iff empty_set set_ConsD)
  ultimately have "k \<le> last ?os" by auto
  with r show ?thesis by simp
qed

lemma py_rfind_none:
  assumes "\<And>k. k \<le> length s \<Longrightarrow> \<not> prefix sub (drop k s)"
  shows "py_rfind s sub = - 1"
proof -
  have "\<not> prefix sub (drop k s)" if "k \<in> set [0..<Suc (length s)]" for k
  proof -
    from that have "k \<le> length s" by auto
    then show ?thesis by (rule assms)
  qed
  then have "occurrences sub s = []"
    unfolding occurrences_def filter_empty_conv by blast
  then show ?thesis by (simp add: py_rfind_def)
qed

lemma py_rfind_lower: "- 1 \<le> py_rfind s sub"
  by (simp add: py_rfind_def split: list.splits)

lemma py_slice_middle:
  "py_slice (a @ b @ c) (int (length a)) (int (length a + length b)) = b"
  by (simp add: py_slice_def py_index_def)


lemma backquote_not_space [simp]: "\<not> py_isspace CHR ''`''"
  by (simp add: py_isspace_def)

lemma py_strip_id:
  assumes "s \<noteq> []" "\<not> py_isspace (hd s)" "\<not> py_isspace (last s)"
  shows "py_strip s = s"
proof -
  have 1: "dropWhile py_isspace s = s"
    using assms(2) by (simp only: dropWhile_eq_self_iff) simp
  have "hd (rev s) = last s" by (rule hd_rev)
  with assms(3) have 2: "dropWhile py_isspace (rev s) = rev s"
    by (simp only: dropWhile_eq_self_iff) simp
  show ?thesis unfolding py_strip_def 1 2 by simp
qed

lemma ws_no_prefix:
  assumes "all_space lead" "k < length lead" "\<not> py_isspace c"
  shows "\<not> prefix (c # cs) (drop k (lead @ r))"
proof -
  have "drop k (lead @ r) = lead ! k # drop (Suc k) lead @ r"
    using assms(2) by (simp add: Cons_nth_drop_Suc)
  moreover have "py_isspace (lead ! k)"
    using assms(1,2) by (simp add: all_space_set)
  ultimately show ?thesis using assms(3) by auto
qed

lemma py_find_after_ws:
  assumes "all_space lead" "\<not> py_isspace c"
  shows "py_find (lead @ (c # cs) @ r) (c # cs) = int (length lead)"
proof (rule py_find_first)
  show "length lead \<le> length (lead @ (c # cs) @ r)" by simp
  show "prefix (c # cs) (drop (length lead) (lead @ (c # cs) @ r))" by simp
  show "\<not> prefix (c # cs) (drop k (lead @ (c # cs) @ r))" if "k < length lead" for k
    using assms(1) that assms(2) by (rule ws_no_prefix)
qed

lemma fence_prefix_nth: "prefix ''```'' u \<Longrightarrow> 2 < length u \<and> u ! 2 = CHR ''`''"
  by (auto simp: prefix_def)

lemma no_fence_tail:
  assumes "all_space trail" "0 < m"
  shows "\<not> prefix ''```'' (drop m (''```'' @ trail))"
proof
  let ?s = "''```'' @ trail"
  assume "prefix ''```'' (drop m ?s)"
  then have l: "2 < length (drop m ?s)" and c: "drop m ?s ! 2 = CHR ''`''"
    by (simp_all only: fence_prefix_nth)
  from l have lt: "m + 2 < length ?s" by simp
  then have "drop m ?s ! 2 = ?s ! (m + 2)" by (simp only: nth_drop less_imp_le)
  also have "\<dots> = trail ! (m + 2 - 3)"
    using assms(2) by (simp add: nth_append)
  finally have "trail ! (m - 1) = CHR ''`''" using c by simp
  moreover have "m - 1 < length trail" using lt assms(2) by simp
  ultimately have "CHR ''`'' \<in> set trail" by (metis nth_mem)
  with assms(1) show False by (auto simp: all_space_set)
qed

lemma py_rfind_fence_end:
  assumes "all_space trail"
  shows "py_rfind (pre @ ''```'' @ trail) ''```'' = int (length pre)"
proof (rule py_rfind_last)
  let ?s = "pre @ ''```'' @ trail"
  show "length pre \<le> length ?s" by simp
  show "prefix ''```'' (drop (length pre) ?s)" by simp
  show "\<not> prefix ''```'' (drop k ?s)" if "length pre < k" "k \<le> length ?s" for k
  proof -
    have "drop k ?s = drop (k - length pre) (''```'' @ trail)"
      using that(1) by simp
    moreover have "0 < k - length pre" using that(1) by simp
    ultimately show ?thesis using no_fence_tail [OF assms] by simp
  qed
qed

lemma py_replace_ws:
  assumes "all_space lead" "\<not> py_isspace c"
  shows "py_replace (lead @ r) (c # cs) new = lead @ py_replace r (c # cs) new"
  using assms(1)
proof (induction lead)
  case Nil
  show ?case by simp
next
  case (Cons a lead)
  then have "a \<noteq> c" using assms(2) by auto
  with Cons show ?case by simp
qed


section \<open>Facts about the fence handling\<close>

lemma py_strip_fenced:
  assumes "all_space lead" "all_space trail"
  shows "py_strip (lead @ (CHR ''`'' # m @ ''`'') @ trail) = CHR ''`'' # m @ ''`''"
proof -
  have "py_strip (lead @ (CHR ''`'' # m @ ''`'') @ trail) = py_strip (CHR ''`'' # m @ ''`'')"
    using assms by (rule py_strip_ws_append)
  also have "\<dots> = CHR ''`'' # m @ ''`''"
    by (rule py_strip_id) simp_all
  finally show ?thesis .
qed

lemma py_replace_only_ws:
  assumes "all_space w" "\<not> py_isspace c"
  shows "py_replace w (c # cs) new = w"
  using py_replace_ws [OF assms, of "[]" cs new] by simp

lemma py_replace_hit:
  "old \<noteq> [] \<Longrightarrow> py_replace (old @ r) old new = new @ py_replace r old new"
  by (cases old) simp_all

lemma py_replace_absent:
  "(\<And>k. \<not> prefix old (drop k s)) \<Longrightarrow> py_replace s old new = s"
proof (induction s)
  case Nil
  show ?case by simp
next
  case (Cons c cs)
  have 0: "\<not> prefix old (c # cs)" using Cons.prems [of 0] by simp
  have "\<not> prefix old (drop k cs)" for k using Cons.prems [of "Suc k"] by simp
  then have "py_replace cs old new = cs" by (rule Cons.IH)
  with 0 show ?case by simp
qed

lemma json_fence_absent:
  assumes "all_space trail"
  shows "\<not> prefix ''```json'' (drop k (''```'' @ trail))"
proof (cases k)
  case 0
  have "\<not> prefix ''json'' trail"
    using assms by (cases trail) (auto simp: py_isspace_def)
  then show ?thesis using 0 by simp
next
  case (Suc n)
  then have "\<not> prefix ''```'' (drop k (''```'' @ trail))"
    using no_fence_tail [OF assms, of k] by simp
  moreover have "prefix ''```'' u" if "prefix (''```'' @ ''json'') u" for u
    using that by (rule append_prefixD)
  ultimately show ?thesis by auto
qed

lemma replace_json_empty_block:
  assumes "all_space lead" "all_space trail"
  shows "py_replace (py_replace (lead @ ''```json'' @ ''```'' @ trail) ''```json'' []) ''```'' []
           = lead @ trail"
proof -
  have "py_replace (lead @ ''```json'' @ ''```'' @ trail) ''```json'' []
          = lead @ py_replace (''```json'' @ ''```'' @ trail) ''```json'' []"
    using assms(1) by (rule py_replace_ws) simp
  also have "py_replace (''```json'' @ ''```'' @ trail) ''```json'' []
          = [] @ py_replace (''```'' @ trail) ''```json'' []"
    by (rule py_replace_hit) simp
  also have "py_replace (''```'' @ trail) ''```json'' [] = ''```'' @ trail"
    by (rule py_replace_absent) (rule json_fence_absent [OF assms(2)])
  finally have 1: "py_replace (lead @ ''```json'' @ ''```'' @ trail) ''```json'' []
          = lead @ ''```'' @ trail" by simp
  have "py_replace (lead @ ''```'' @ trail) ''```'' [] = lead @ py_replace (''```'' @ trail) ''```'' []"
    using assms(1) by (rule py_replace_ws) simp
  also have "py_replace (''```'' @ trail) ''```'' [] = [] @ py_replace trail ''```'' []"
    by (rule py_replace_hit) simp
  also have "py_replace trail ''```'' [] = trail"
    using assms(2) by (rule py_replace_only_ws) simp
  finally show ?thesis unfolding 1 by simp
qed

lemma strip_fences_json_fenced:
  assumes "all_space lead" "all_space w1" "all_space w2" "all_space trail"
  shows "snd (strip_fences (lead @ ''```json'' @ w1 @ j @ w2 @ ''```'' @ trail)) = py_strip j"
proof -
  let ?b = "w1 @ j @ w2"
  let ?t = "lead @ ''```json'' @ w1 @ j @ w2 @ ''```'' @ trail"
  have t1: "?t = lead @ (CHR ''`'' # (''``json'' @ ?b @ ''``'') @ ''`'') @ trail" by simp
  have s: "py_strip ?t = ''```json'' @ ?b @ ''```''"
    unfolding t1 py_strip_fenced [OF assms(1,4)] by simp
  have t2: "?t = lead @ (CHR ''`'' # ''``json'') @ (?b @ ''```'' @ trail)" by simp
  have f: "py_find ?t ''```json'' = int (length lead)"
    unfolding t2 by (rule py_find_after_ws [OF assms(1)]) simp
  have t3: "?t = (lead @ ''```json'' @ ?b) @ ''```'' @ trail" by simp
  have r: "py_rfind ?t ''```'' = int (length lead) + 7 + int (length ?b)"
    unfolding t3 py_rfind_fence_end [OF assms(4)] by simp
  have b: "py_strip ?b = py_strip j"
    using assms(2,3) by (rule py_strip_ws_append)
  show ?thesis
  proof (cases "?b = []")
    case True
    then have e: "w1 = []" "j = []" "w2 = []" by simp_all
    have "py_strip (lead @ trail) = []"
      using assms(1,4) by (simp add: py_strip_all_space)
    then have "py_strip (py_replace (py_replace (lead @ ''```json'' @ ''```'' @ trail) ''```json'' []) ''```'' []) = py_strip []"
      unfolding replace_json_empty_block [OF assms(1,4)] by (simp add: py_strip_all_space)
    then have "py_strip (py_replace (py_replace ?t ''```json'' []) ''```'' []) = py_strip j"
      unfolding e by (simp only: append_Nil)
    moreover have "\<not> py_rfind ?t ''```'' > py_find ?t ''```json'' + int (length ''```json'')"
      unfolding f r using True by simp
    ultimately show ?thesis
      unfolding strip_fences_def s by (simp add: Let_def)
  next
    case False
    have t4: "?t = (lead @ ''```json'') @ ?b @ (''```'' @ trail)" by simp
    have "py_slice ?t (int (length (lead @ ''```json''))) (int (length (lead @ ''```json'') + length ?b)) = ?b"
      unfolding t4 by (rule py_slice_middle)
    then have sl: "py_slice ?t (int (length lead) + 7) (int (length lead) + 7 + int (length ?b)) = ?b"
      by (simp add: add.commute add.left_commute)
    have "0 < length ?b" using False by (metis length_greater_0_conv)
    then have gt: "py_rfind ?t ''```'' > py_find ?t ''```json'' + int (length ''```json'')"
      unfolding f r by (simp del: length_append)
    have "snd (strip_fences ?t) = py_strip (py_slice ?t (int (length lead) + 7) (int (length lead) + 7 + int (length ?b)))"
      unfolding strip_fences_def s using gt unfolding f r by (simp add: Let_def)
    then show ?thesis unfolding sl b .
  qed
qed


lemma replace_generic_empty_block:
  assumes "all_space lead" "all_space trail"
  shows "py_replace (lead @ ''```'' @ ''```'' @ trail) ''```'' [] = lead @ trail"
proof -
  have "py_replace (lead @ ''```'' @ ''```'' @ trail) ''```'' []
          = lead @ py_replace (''```'' @ ''```'' @ trail) ''```'' []"
    using assms(1) by (rule py_replace_ws) simp
  also have "py_replace (''```'' @ ''```'' @ trail) ''```'' []
          = [] @ py_replace (''```'' @ trail) ''```'' []"
    by (rule py_replace_hit) simp
  also have "py_replace (''```'' @ trail) ''```'' [] = [] @ py_replace trail ''```'' []"
    by (rule py_replace_hit) simp
  also have "py_replace trail ''```'' [] = trail"
    using assms(2) by (rule py_replace_only_ws) simp
  finally show ?thesis by simp
qed

lemma strip_fences_generic_fenced:
  assumes "all_space lead" "all_space w1" "all_space w2" "all_space trail"
    and nj: "\<not> prefix ''json'' (w1 @ j @ w2 @ ''```'')"
  shows "snd (strip_fences (lead @ ''```'' @ w1 @ j @ w2 @ ''```'' @ trail)) = py_strip j"
proof -
  let ?b = "w1 @ j @ w2"
  let ?t = "lead @ ''```'' @ w1 @ j @ w2 @ ''```'' @ trail"
  have t1: "?t = lead @ (CHR ''`'' # (''``'' @ ?b @ ''``'') @ ''`'') @ trail" by simp
  have s: "py_strip ?t = ''```'' @ ?b @ ''```''"
    unfolding t1 py_strip_fenced [OF assms(1,4)] by simp
  have p1: "\<not> prefix ''```json'' (py_strip ?t)"
    unfolding s using nj by simp
  have p2: "prefix ''```'' (py_strip ?t)"
    unfolding s by simp
  have t2: "?t = lead @ (CHR ''`'' # ''``'') @ (?b @ ''```'' @ trail)" by simp
  have f: "py_find ?t ''```'' = int (length lead)"
    unfolding t2 by (rule py_find_after_ws [OF assms(1)]) simp
  have t3: "?t = (lead @ ''```'' @ ?b) @ ''```'' @ trail" by simp
  have r: "py_rfind ?t ''```'' = int (length lead) + 3 + int (length ?b)"
    unfolding t3 py_rfind_fence_end [OF assms(4)] by simp
  have b: "py_strip ?b = py_strip j"
    using assms(2,3) by (rule py_strip_ws_append)
  show ?thesis
  proof (cases "?b = []")
    case True
    then have e: "w1 = []" "j = []" "w2 = []" by simp_all
    have "py_strip (lead @ trail) = []"
      using assms(1,4) by (simp add: py_strip_all_space)
    then have "py_strip (py_replace (lead @ ''```'' @ ''```'' @ trail) ''```'' []) = py_strip []"
      unfolding replace_generic_empty_block [OF assms(1,4)] by (simp add: py_strip_all_space)
    then have "py_strip (py_replace ?t ''```'' []) = py_strip j"
      unfolding e by (simp only: append_Nil)
    moreover have "\<not> py_rfind ?t ''```'' > py_find ?t ''```'' + int (length ''```'')"
      unfolding f r using True by simp
    ultimately show ?thesis
      unfolding strip_fences_def using p1 p2 by (simp add: Let_def)
  next
    case False
    have t4: "?t = (lead @ ''```'') @ ?b @ (''```'' @ trail)" by simp
    have "py_slice ?t (int (length (lead @ ''```''))) (int (length (lead @ ''```'') + length ?b)) = ?b"
      unfolding t4 by (rule py_slice_middle)
    then have sl: "py_slice ?t (int (length lead) + 3) (int (length lead) + 3 + int (length ?b)) = ?b"
      by (simp add: add.commute add.left_commute)
    have "0 < length ?b" using False by (metis length_greater_0_conv)
    then have gt: "py_rfind ?t ''```'' > py_find ?t ''```'' + int (length ''```'')"
      unfolding f r by (simp del: length_append)
    have "snd (strip_fences ?t) = py_strip (py_slice ?t (int (length lead) + 3) (int (length lead) + 3 + int (length ?b)))"
      unfolding strip_fences_def using p1 p2 gt unfolding f r by (simp add: Let_def)
    then show ?thesis unfolding sl b .
  qed
qed

lemma strip_fences_bare:
  assumes "\<not> prefix ''`'' (py_strip t)"
  shows "strip_fences t = ([], t)"
proof -
  have "prefix ''`'' u" if "prefix (''`'' @ v) u" for u v :: string
    using that by (rule append_prefixD)
  from this [of "''``json''"] this [of "''``''"] assms
  have "\<not> prefix ''```json'' (py_strip t)" "\<not> prefix ''```'' (py_strip t)"
    by auto
  then show ?thesis by (simp add: strip_fences_def)
qed

lemma snd_response_sanitizer:
  "snd (response_sanitizer loads t) = snd (parse_report loads (snd (strip_fences t)))"
  by (simp add: response_sanitizer_def split: prod.splits)

lemma snd_parse_report_ok:
  "loads c = Inr v \<Longrightarrow> snd (parse_report loads c) = Inr v"
  by (simp add: parse_report_def)

lemma demo_loads_sample: "demo_loads sample_json = Inr sample_report"
  unfolding sample_json_def sample_report_def by code_simp

lemma json_text_sample: "json_text demo_loads sample_json"
  unfolding json_text_def sample_json_def by code_simp

section \<open>Facts about the extraction and the handler\<close>

lemma docx_paragraphs_eq:
  "docx_paragraphs ps acc = acc @ concat (map (\<lambda>p. p @ [CHR 0x0A]) ps)"
  by (induction ps arbitrary: acc) simp_all

lemma snd_pdf_pages_Cons:
  "snd (pdf_pages (page # pages) i acc) =
     (case page of
        Inl e \<Rightarrow> Inl e
      | Inr t \<Rightarrow> snd (pdf_pages pages (Suc i) (if t \<noteq> [] then acc @ t @ [CHR 0x0A] else acc)))"
  by (simp split: sum.splits prod.splits)

lemma fst_pdf_pages_Cons:
  "fst (pdf_pages (page # pages) i acc) =
     (case page of
        Inl e \<Rightarrow> [Page_extract_text i]
      | Inr t \<Rightarrow> Page_extract_text i
          # fst (pdf_pages pages (Suc i) (if t \<noteq> [] then acc @ t @ [CHR 0x0A] else acc)))"
  by (simp split: sum.splits prod.splits)

lemma pdf_pages_ok:
  "snd (pdf_pages (map Inr ts) i acc)
     = Inr (acc @ concat (map (\<lambda>t. t @ [CHR 0x0A]) (filter (\<lambda>t. t \<noteq> []) ts)))"
proof (induction ts arbitrary: i acc)
  case Nil
  show ?case by simp
next
  case (Cons t ts)
  show ?case
    unfolding list.map snd_pdf_pages_Cons by (simp add: Cons.IH)
qed

lemma pdf_pages_raise:
  "Inl e \<in> set pages \<Longrightarrow> \<exists>e'. snd (pdf_pages pages i acc) = Inl e'"
proof (induction pages arbitrary: i acc)
  case Nil
  then show ?case by simp
next
  case (Cons page pages)
  show ?case
  proof (cases page)
    case (Inl a)
    then show ?thesis unfolding snd_pdf_pages_Cons by simp
  next
    case (Inr t)
    with Cons.prems have "Inl e \<in> set pages" by auto
    from Cons.IH [OF this] Inr show ?thesis
      unfolding snd_pdf_pages_Cons by simp
  qed
qed

lemma pdf_pages_events:
  "ev \<in> set (fst (pdf_pages pages i acc)) \<Longrightarrow> \<exists>k. ev = Page_extract_text k"
proof (induction pages arbitrary: i acc)
  case Nil
  then show ?case by simp
next
  case (Cons page pages)
  show ?case
  proof (cases page)
    case (Inl a)
    with Cons.prems show ?thesis unfolding fst_pdf_pages_Cons by simp
  next
    case (Inr t)
    with Cons.prems have "ev = Page_extract_text i
        \<or> ev \<in> set (fst (pdf_pages pages (Suc i) (if t \<noteq> [] then acc @ t @ [CHR 0x0A] else acc)))"
      unfolding fst_pdf_pages_Cons by simp
    with Cons.IH show ?thesis by blast
  qed
qed

lemma extract_never_raises: "snd (extract_text_from_resume libs f) \<noteq> Inl e"
  by (simp add: extract_text_from_resume_def Let_def split: prod.splits sum.splits body_exit.splits)

lemma snd_extract:
  "snd (extract_text_from_resume libs f) =
     (case snd (extract_body libs f (file_extension_of f)) of
        Inl e \<Rightarrow> Inr None
      | Inr Return_None \<Rightarrow> Inr None
      | Inr (Fall_through text) \<Rightarrow> Inr (Some (py_strip text)))"
  by (simp add: extract_text_from_resume_def Let_def split: prod.splits sum.splits body_exit.splits)

lemma extract_body_events:
  assumes "ev \<in> set (fst (extract_body libs f ext))"
  shows "ev = Read_file \<or> ev = Open_PdfReader \<or> ev = Open_Document
         \<or> (\<exists>k. ev = Page_extract_text k) \<or> (\<exists>m. ev = Log WARNING m)"
proof (cases "read f")
  case (Inl e)
  with assms show ?thesis by (simp add: extract_body_def)
next
  case content: (Inr content)
  consider "ext = ''.pdf''" | "ext \<noteq> ''.pdf''" "ext = ''.docx''" | "ext \<noteq> ''.pdf''" "ext \<noteq> ''.docx''"
    by blast
  then show ?thesis
  proof cases
    case 1
    show ?thesis
    proof (cases "PdfReader libs content")
      case (Inl e)
      with assms content 1 show ?thesis by (auto simp: extract_body_def)
    next
      case (Inr pages)
      with assms content 1 have "ev = Read_file \<or> ev = Open_PdfReader
          \<or> ev \<in> set (fst (pdf_pages pages 0 []))"
        by (auto simp: extract_body_def split: prod.splits)
      then show ?thesis using pdf_pages_events by blast
    qed
  next
    case 2
    with assms content show ?thesis
      by (auto simp: extract_body_def split: sum.splits)
  next
    case 3
    with assms content show ?thesis by (auto simp: extract_body_def)
  qed
qed

lemma extract_events_no_generate:
  "Generate_content p \<notin> set (fst (extract_text_from_resume libs f))"
proof
  assume a: "Generate_content p \<in> set (fst (extract_text_from_resume libs f))"
  then have "Generate_content p \<in> set (fst (extract_body libs f (file_extension_of f)))"
    by (auto simp: extract_text_from_resume_def Let_def split: prod.splits sum.splits body_exit.splits)
  from extract_body_events [OF this] show False by auto
qed

lemma rfind_absent_char:
  assumes "c \<notin> set p"
  shows "py_rfind p [c] = - 1"
proof (rule py_rfind_none)
  fix k
  show "\<not> prefix [c] (drop k p)"
  proof
    assume "prefix [c] (drop k p)"
    then have "c \<in> set (drop k p)" by (auto simp: prefix_def)
    then have "c \<in> set p" by (rule in_set_dropD)
    with assms show False by simp
  qed
qed

lemma splitext_no_dot:
  assumes "CHR ''.'' \<notin> set p"
  shows "splitext p = (p, [])"
proof -
  have "py_rfind p ''.'' = - 1" using assms by (rule rfind_absent_char)
  moreover have "- 1 \<le> py_rfind p ''/''" by (rule py_rfind_lower)
  ultimately show ?thesis by (simp add: splitext_def Let_def)
qed

lemma extract_unsupported:
  assumes "file_extension_of f \<noteq> ''.pdf''" "file_extension_of f \<noteq> ''.docx''"
  shows "snd (extract_text_from_resume libs f) = Inr None"
    and "read f = Inr content \<Longrightarrow> fst (extract_text_from_resume libs f) =
           [Read_file, Log WARNING (''Unsupported file type for text extraction: ''
              @ file_extension_of f)]"
    and "read f = Inl e \<Longrightarrow> fst (extract_text_from_resume libs f) =
           [Read_file, Log ERROR (''Error extracting text from '' @ name f @ '' (''
              @ file_extension_of f @ ''): '' @ str_exn e)]"
  using assms
  by (simp_all add: extract_text_from_resume_def extract_body_def Let_def split: sum.splits)

lemma post_extraction_failed:
  assumes "FILES request ''resume_file'' = Some f" "name f \<noteq> []"
    and "snd (extract_text_from_resume libs f) = Inr None
         \<or> snd (extract_text_from_resume libs f) = Inr (Some [])"
  shows "snd (post libs request) = Inr extraction_failed_response"
    and "Generate_content p \<notin> set (fst (post libs request))"
proof -
  obtain evs r where er: "extract_text_from_resume libs f = (evs, r)" by (cases "extract_text_from_resume libs f")
  with assms(3) have r: "r = Inr None \<or> r = Inr (Some [])" by simp
  have ng: "Generate_content p \<notin> set evs"
    using extract_events_no_generate [of p libs f] er by simp
  from r show "snd (post libs request) = Inr extraction_failed_response"
    using assms(1,2) er by (auto simp: post_def not_resume_file_def Let_def)
  from r show "Generate_content p \<notin> set (fst (post libs request))"
    using assms(1,2) er ng by (auto simp: post_def not_resume_file_def Let_def)
qed

lemma strip_fences_events: "ev \<in> set (fst (strip_fences t)) \<Longrightarrow> \<exists>m. ev = Log WARNING m"
  by (auto simp: strip_fences_def Let_def split: if_splits)

lemma parse_report_events:
  "ev \<in> set (fst (parse_report loads c)) \<Longrightarrow> (\<exists>l m. ev = Log l m) \<or> ev = Json_loads c"
  by (auto simp: parse_report_def split: sum.splits exn.splits)

lemma response_sanitizer_events:
  assumes "ev \<in> set (fst (response_sanitizer loads t))"
  shows "(\<exists>l m. ev = Log l m) \<or> (\<exists>c. ev = Json_loads c)"
proof -
  obtain a c where sf: "strip_fences t = (a, c)" by (cases "strip_fences t")
  obtain b r where pr: "parse_report loads c = (b, r)" by (cases "parse_report loads c")
  from assms sf pr have "ev \<in> set a \<or> ev \<in> set b"
    by (simp add: response_sanitizer_def)
  then show ?thesis
    using strip_fences_events [of ev t] parse_report_events [of ev loads c] sf pr by auto
qed

lemma gemini_generate_event:
  assumes "Generate_content p \<in> set (fst (get_gemini_analysis libs t jd jc sr))"
  shows "p = build_prompt t jd jc sr"
proof (cases "generate_content libs (build_prompt t jd jc sr)")
  case (Inl e)
  with assms show ?thesis by (simp add: get_gemini_analysis_def Let_def)
next
  case (Inr reply)
  obtain a r where rs: "response_sanitizer (json_loads libs) reply = (a, r)"
    by (cases "response_sanitizer (json_loads libs) reply")
  from assms Inr rs have "p = build_prompt t jd jc sr \<or> Generate_content p \<in> set a"
    by (simp add: get_gemini_analysis_def Let_def)
  moreover have "Generate_content p \<notin> set a"
    using response_sanitizer_events [of "Generate_content p" "json_loads libs" reply] rs by auto
  ultimately show ?thesis by blast
qed

lemma snd_gemini_ok:
  assumes "generate_content libs (build_prompt t jd jc sr) = Inr reply"
  shows "snd (get_gemini_analysis libs t jd jc sr) = snd (response_sanitizer (json_loads libs) reply)"
  using assms by (simp add: get_gemini_analysis_def Let_def split: prod.splits)

lemma post_analysed:
  assumes "FILES request ''resume_file'' = Some f" "name f \<noteq> []"
    and "snd (extract_text_from_resume libs f) = Inr (Some t)" "t \<noteq> []"
  shows "snd (post libs request) =
           (case snd (get_gemini_analysis libs t (data_get request ''job_description'' [])
                   (data_get request ''job_category'' ''General'')
                   (data_get request ''specific_role'' ''Applicant'')) of
              Inr parsed_report \<Rightarrow>
                Inr \<lparr>status = 200, success = True, message = ''Analysis complete.'',
                     report = Some parsed_report\<rparr>
            | Inl e \<Rightarrow>
                Inr \<lparr>status = 500, success = False,
                     message = ''An error occurred during analysis: '' @ str_exn e
                       @ ''. Check server logs for details.'',
                     report = None\<rparr>)"
    and "Generate_content p \<in> set (fst (post libs request)) \<Longrightarrow> prompt_resume_text p = t"
proof -
  let ?g = "get_gemini_analysis libs t (data_get request ''job_description'' [])
                   (data_get request ''job_category'' ''General'')
                   (data_get request ''specific_role'' ''Applicant'')"
  obtain evs r where er: "extract_text_from_resume libs f = (evs, r)"
    by (cases "extract_text_from_resume libs f")
  with assms(3) have r: "r = Inr (Some t)" by simp
  obtain gevs g where g: "?g = (gevs, g)" by (cases ?g)
  have ng: "Generate_content p \<notin> set evs"
    using extract_events_no_generate [of p libs f] er by simp
  show "snd (post libs request) =
           (case snd ?g of
              Inr parsed_report \<Rightarrow>
                Inr \<lparr>status = 200, success = True, message = ''Analysis complete.'',
                     report = Some parsed_report\<rparr>
            | Inl e \<Rightarrow>
                Inr \<lparr>status = 500, success = False,
                     message = ''An error occurred during analysis: '' @ str_exn e
                       @ ''. Check server logs for details.'',
                     report = None\<rparr>)"
    using assms(1,2,4) er r g
    by (simp add: post_def not_resume_file_def Let_def split: sum.splits)
  assume "Generate_content p \<in> set (fst (post libs request))"
  then have "Generate_content p \<in> set gevs"
    using assms(1,2,4) er r g ng
    by (simp add: post_def not_resume_file_def Let_def split: sum.splits)
  then have "p = build_prompt t (data_get request ''job_description'' [])
                   (data_get request ''job_category'' ''General'')
                   (data_get request ''specific_role'' ''Applicant'')"
    using gemini_generate_event [of p libs t] g by simp
  then show "prompt_resume_text p = t" by (simp add: build_prompt_def)
qed

lemma extract_result_not_blank:
  assumes "snd (extract_text_from_resume libs f) = Inr (Some t)" "t \<noteq> []"
  shows "\<not> all_space t"
proof -
  from assms(1) obtain acc where "t = py_strip acc"
    by (auto simp: snd_extract split: sum.splits body_exit.splits)
  with assms(2) have "\<not> py_isspace (hd t)" using py_strip_ends(1) by blast
  with assms(2) show ?thesis by (cases t) auto
qed

lemma post_generate_event:
  assumes "FILES request ''resume_file'' = Some f" "name f \<noteq> []"
    and "Generate_content p \<in> set (fst (post libs request))"
  shows "\<not> all_space (prompt_resume_text p)"
proof -
  have nr: "snd (extract_text_from_resume libs f) \<noteq> Inl e" for e
    by (rule extract_never_raises)
  have nf: "\<not> (snd (extract_text_from_resume libs f) = Inr None
            \<or> snd (extract_text_from_resume libs f) = Inr (Some []))"
    using post_extraction_failed(2) [OF assms(1,2), of libs p] assms(3) by blast
  obtain t where t: "snd (extract_text_from_resume libs f) = Inr (Some t)" "t \<noteq> []"
  proof (cases "snd (extract_text_from_resume libs f)")
    case (Inl e)
    with nr show ?thesis by blast
  next
    case (Inr r)
    with nf that show ?thesis by (cases r) auto
  qed
  from post_analysed(2) [OF assms(1,2) t assms(3)] have "prompt_resume_text p = t" .
  with extract_result_not_blank [OF t] show ?thesis by simp
qed

lemma dropWhile_keeps:
  assumes "m \<noteq> []" "\<not> Q (hd m)"
  shows "\<exists>P'. dropWhile Q (P @ m @ S) = P' @ m @ S"
proof (cases "\<forall>x\<in>set P. Q x")
  case True
  then have "dropWhile Q (P @ m @ S) = dropWhile Q (m @ S)"
    by (simp add: dropWhile_append2)
  also have "\<dots> = m @ S"
    using assms by (cases m) simp_all
  finally show ?thesis by (metis append_Nil)
next
  case False
  then obtain x where "x \<in> set P" "\<not> Q x" by blast
  then have "dropWhile Q (P @ m @ S) = dropWhile Q P @ m @ S"
    by (rule dropWhile_append1)
  then show ?thesis by blast
qed

lemma py_strip_keeps_core:
  assumes "m \<noteq> []" "\<not> py_isspace (hd m)" "\<not> py_isspace (last m)"
  shows "sublist m (py_strip (P @ m @ S))"
proof -
  obtain P' where 1: "dropWhile py_isspace (P @ m @ S) = P' @ m @ S"
    using dropWhile_keeps [of m py_isspace P S] assms(1,2) by blast
  have "rev m \<noteq> []" "\<not> py_isspace (hd (rev m))"
    using assms(1,3) by (simp_all add: hd_rev)
  then obtain S' where 2: "dropWhile py_isspace (rev S @ rev m @ rev P') = S' @ rev m @ rev P'"
    using dropWhile_keeps [of "rev m" py_isspace "rev S" "rev P'"] by blast
  have "py_strip (P @ m @ S) = P' @ m @ rev S'"
    unfolding py_strip_def 1 using 2 by simp
  then show ?thesis by simp
qed

lemma all_space_concat: "all_space (concat xs) = (\<forall>x\<in>set xs. all_space x)"
  by (induction xs) auto

lemma sublist_strip_page:
  assumes "t \<in> set ts"
  shows "sublist (py_strip t) (py_strip (concat (map (\<lambda>t. t @ [CHR 0x0A]) (filter (\<lambda>t. t \<noteq> []) ts))))"
proof (cases "py_strip t = []")
  case True
  then show ?thesis by simp
next
  case False
  then have ne: "t \<noteq> []" by (auto simp: py_strip_def)
  with assms have "t \<in> set (filter (\<lambda>t. t \<noteq> []) ts)" by simp
  then obtain xs ys where xy: "filter (\<lambda>t. t \<noteq> []) ts = xs @ t # ys"
    by (meson split_list)
  define L where "L = concat (map (\<lambda>t. t @ [CHR 0x0A]) xs)"
  define R where "R = [CHR 0x0A] @ concat (map (\<lambda>t. t @ [CHR 0x0A]) ys)"
  have c: "concat (map (\<lambda>t. t @ [CHR 0x0A]) (filter (\<lambda>t. t \<noteq> []) ts)) = L @ t @ R"
    unfolding xy L_def R_def by simp
  obtain a b where t: "a @ py_strip t @ b = t"
    using py_strip_decomp [of t] by metis
  have "(L @ a) @ py_strip t @ (b @ R) = L @ (a @ py_strip t @ b) @ R"
    by (simp only: append_assoc)
  also have "\<dots> = L @ t @ R"
    by (simp only: t)
  finally have e: "(L @ a) @ py_strip t @ (b @ R) = L @ t @ R" .
  have "sublist (py_strip t) (py_strip ((L @ a) @ py_strip t @ (b @ R)))"
    using False py_strip_ends [OF False] by (rule py_strip_keeps_core)
  then show ?thesis unfolding c e .
qed

lemma strip_pages_nonempty:
  assumes "t \<in> set ts" "\<not> all_space t"
  shows "py_strip (concat (map (\<lambda>t. t @ [CHR 0x0A]) (filter (\<lambda>t. t \<noteq> []) ts))) \<noteq> []"
proof -
  from assms have "t \<in> set (filter (\<lambda>t. t \<noteq> []) ts)" by auto
  with assms(2) have "\<not> all_space (concat (map (\<lambda>t. t @ [CHR 0x0A]) (filter (\<lambda>t. t \<noteq> []) ts)))"
    unfolding all_space_concat by (auto simp del: filter_set)
  then show ?thesis by (simp add: py_strip_eq_Nil)
qed

section \<open>Facts about the fallback of the fence handling\<close>

lemma sublist_iff_drop: "sublist xs ys = (\<exists>k. prefix xs (drop k ys))"
proof
  assume "sublist xs ys"
  then obtain ps ss where "ys = ps @ xs @ ss" by (auto simp: sublist_def)
  then have "prefix xs (drop (length ps) ys)" by simp
  then show "\<exists>k. prefix xs (drop k ys)" ..
next
  assume "\<exists>k. prefix xs (drop k ys)"
  then obtain k ss where "drop k ys = xs @ ss" by (auto simp: prefix_def)
  then have "ys = take k ys @ xs @ ss" by (metis append_take_drop_id)
  then show "sublist xs ys" by (auto simp: sublist_def)
qed

lemma json_fence_needs_fence: "prefix ''```json'' u \<Longrightarrow> prefix ''```'' u"
proof -
  assume "prefix ''```json'' u"
  then have "prefix (''```'' @ ''json'') u" by simp
  then show ?thesis by (rule append_prefixD)
qed

lemma replace_fence_free:
  assumes "\<And>k. \<not> prefix ''```'' (drop k s)"
  shows "py_replace s ''```'' [] = s" "py_replace s ''```json'' [] = s"
proof -
  show "py_replace s ''```'' [] = s"
    by (rule py_replace_absent) (rule assms)
  show "py_replace s ''```json'' [] = s"
  proof (rule py_replace_absent)
    fix k show "\<not> prefix ''```json'' (drop k s)"
      using assms [of k] json_fence_needs_fence by blast
  qed
qed

lemma py_replace_Cons_hit:
  assumes "old \<noteq> []" "prefix old (c # cs)"
  shows "py_replace (c # cs) old new = new @ py_replace (drop (length old - 1) cs) old new"
  using assms by simp

lemma py_replace_Cons_miss:
  assumes "\<not> prefix old (c # cs)"
  shows "py_replace (c # cs) old new = c # py_replace cs old new"
  using assms by simp

lemma replace_fence_late_free:
  assumes "\<And>j. 0 < j \<Longrightarrow> \<not> prefix ''```'' (drop j rest)"
  shows "\<not> prefix ''```'' (drop k (py_replace rest ''```'' []))"
proof (cases rest)
  case Nil
  then show ?thesis by simp
next
  case (Cons c cs)
  have cs: "\<not> prefix ''```'' (drop j cs)" for j
    using assms [of "Suc j"] Cons by simp
  show ?thesis
  proof (cases "prefix ''```'' (c # cs)")
    case True
    have "\<not> prefix ''```'' (drop j (drop 2 cs))" for j
      using cs [of "j + 2"] by (simp add: add.commute)
    then have "py_replace (drop 2 cs) ''```'' [] = drop 2 cs"
      by (rule replace_fence_free(1))
    moreover have "py_replace (c # cs) ''```'' [] = py_replace (drop 2 cs) ''```'' []"
      using py_replace_Cons_hit [of "''```''" c cs "[]"] True
      by (simp del: py_replace.simps Cons_prefix_Cons add: eval_nat_numeral)
    ultimately have "py_replace (c # cs) ''```'' [] = drop 2 cs" by (simp only:)
    then show ?thesis using cs [of "k + 2"] Cons by (simp add: add.commute)
  next
    case False
    have "py_replace cs ''```'' [] = cs" using cs by (rule replace_fence_free(1))
    with py_replace_Cons_miss [OF False] have e: "py_replace (c # cs) ''```'' [] = c # cs"
      by (simp only:)
    show ?thesis
    proof (cases k)
      case 0
      with False e Cons show ?thesis by simp
    next
      case (Suc j)
      with cs [of j] e Cons show ?thesis by simp
    qed
  qed
qed

lemma replace_json_fence_late_free:
  assumes "\<And>j. 0 < j \<Longrightarrow> \<not> prefix ''```'' (drop j rest)" "0 < k"
  shows "\<not> prefix ''```'' (drop k (py_replace rest ''```json'' []))"
proof (cases rest)
  case Nil
  then show ?thesis by simp
next
  case (Cons c cs)
  have cs: "\<not> prefix ''```'' (drop j cs)" for j
    using assms(1) [of "Suc j"] Cons by simp
  show ?thesis
  proof (cases "prefix ''```json'' (c # cs)")
    case True
    have "\<not> prefix ''```'' (drop j (drop 6 cs))" for j
      using cs [of "j + 6"] by (simp add: add.commute)
    then have "py_replace (drop 6 cs) ''```json'' [] = drop 6 cs"
      by (rule replace_fence_free(2))
    moreover have "py_replace (c # cs) ''```json'' [] = py_replace (drop 6 cs) ''```json'' []"
      using py_replace_Cons_hit [of "''```json''" c cs "[]"] True
      by (simp del: py_replace.simps Cons_prefix_Cons add: eval_nat_numeral)
    ultimately have "py_replace (c # cs) ''```json'' [] = drop 6 cs" by (simp only:)
    then show ?thesis using cs [of "k + 6"] Cons by (simp add: add.commute)
  next
    case False
    have "py_replace cs ''```json'' [] = cs" using cs by (rule replace_fence_free(2))
    with py_replace_Cons_miss [OF False] have e: "py_replace (c # cs) ''```json'' [] = c # cs"
      by (simp only:)
    show ?thesis using assms(1) [OF assms(2)] e Cons by simp
  qed
qed

lemma ws_then_fence_free:
  assumes "all_space lead" "\<And>k. \<not> prefix ''```'' (drop k q)"
  shows "\<not> sublist ''```'' (py_strip (lead @ q))"
proof
  assume "sublist ''```'' (py_strip (lead @ q))"
  then have "sublist ''```'' (lead @ q)"
    using sublist_py_strip [of "lead @ q"] by (metis sublist_order.order_trans)
  then obtain k where k: "prefix ''```'' (drop k (lead @ q))"
    unfolding sublist_iff_drop by blast
  show False
  proof (cases "k < length lead")
    case True
    with ws_no_prefix [OF assms(1) True, of "CHR ''`''" "''``''" q] k show False by simp
  next
    case False
    then have "drop k (lead @ q) = drop (k - length lead) q" by simp
    with k assms(2) show False by simp
  qed
qed

lemma strip_prefix_decomp:
  assumes "prefix F (py_strip t)"
  shows "\<exists>lead rest. all_space lead \<and> t = lead @ F @ rest"
proof -
  obtain a b where ab: "all_space a" "t = a @ py_strip t @ b"
    using py_strip_decomp [of t] by blast
  from assms obtain r where r: "py_strip t = F @ r" by (auto simp: prefix_def)
  have "a @ (F @ r) @ b = a @ F @ (r @ b)" by simp
  with ab(2) r have "t = a @ F @ (r @ b)" by (metis)
  with ab(1) show ?thesis by blast
qed

lemma late_free_from_rfind:
  assumes "all_space lead" "\<not> py_isspace c"
    and "\<not> closing_fence_found (c # cs) (lead @ (c # cs) @ rest)" "0 < j"
  shows "\<not> prefix ''```'' (drop j rest)"
proof
  let ?t = "lead @ (c # cs) @ rest"
  let ?k = "length lead + length (c # cs) + j"
  assume p: "prefix ''```'' (drop j rest)"
  then have "drop j rest \<noteq> []" by auto
  then have j: "j < length rest" by simp
  have "drop ?k ?t = drop j rest" by simp
  with p have "prefix ''```'' (drop ?k ?t)" by (simp only:)
  moreover have "?k \<le> length ?t" using j by simp
  ultimately have "int ?k \<le> py_rfind ?t ''```''" by (rule py_rfind_ge [rotated])
  moreover have "py_find ?t (c # cs) = int (length lead)"
    using assms(1,2) by (rule py_find_after_ws)
  ultimately show False
    using assms(3,4) by (simp add: closing_fence_found_def)
qed

lemma fallback_json_fence_free:
  assumes "prefix ''```json'' (py_strip t)" "\<not> closing_fence_found ''```json'' t"
  shows "\<not> sublist ''```'' (py_strip (py_replace (py_replace t ''```json'' []) ''```'' []))"
proof -
  obtain lead rest where l: "all_space lead" and t: "t = lead @ ''```json'' @ rest"
    using strip_prefix_decomp [OF assms(1)] by blast
  have late: "\<not> prefix ''```'' (drop j rest)" if "0 < j" for j
    using l _ assms(2) [unfolded t] that by (rule late_free_from_rfind) simp
  let ?r = "py_replace rest ''```json'' []"
  have "py_replace (lead @ ''```json'' @ rest) ''```json'' []
      = lead @ py_replace (''```json'' @ rest) ''```json'' []"
    using l by (rule py_replace_ws) simp
  also have "py_replace (''```json'' @ rest) ''```json'' [] = [] @ ?r"
    by (rule py_replace_hit) simp
  finally have 1: "py_replace t ''```json'' [] = lead @ ?r" unfolding t by simp
  have late': "\<not> prefix ''```'' (drop k ?r)" if "0 < k" for k
    using late that by (rule replace_json_fence_late_free)
  have 2: "py_replace (lead @ ?r) ''```'' [] = lead @ py_replace ?r ''```'' []"
    using l by (rule py_replace_ws) simp
  have "\<not> prefix ''```'' (drop k (py_replace ?r ''```'' []))" for k
    using late' by (rule replace_fence_late_free)
  with l have "\<not> sublist ''```'' (py_strip (lead @ py_replace ?r ''```'' []))"
    by (rule ws_then_fence_free)
  then show ?thesis unfolding 1 2 .
qed

lemma fallback_generic_fence_free:
  assumes "prefix ''```'' (py_strip t)" "\<not> closing_fence_found ''```'' t"
  shows "\<not> sublist ''```'' (py_strip (py_replace t ''```'' []))"
proof -
  obtain lead rest where l: "all_space lead" and t: "t = lead @ ''```'' @ rest"
    using strip_prefix_decomp [OF assms(1)] by blast
  have late: "\<not> prefix ''```'' (drop j rest)" if "0 < j" for j
    using l _ assms(2) [unfolded t] that by (rule late_free_from_rfind) simp
  have "py_replace (lead @ ''```'' @ rest) ''```'' []
      = lead @ py_replace (''```'' @ rest) ''```'' []"
    using l by (rule py_replace_ws) simp
  also have "py_replace (''```'' @ rest) ''```'' [] = [] @ py_replace rest ''```'' []"
    by (rule py_replace_hit) simp
  finally have 1: "py_replace t ''```'' [] = lead @ py_replace rest ''```'' []"
    unfolding t by simp
  have "\<not> prefix ''```'' (drop k (py_replace rest ''```'' []))" for k
    using late by (rule replace_fence_late_free)
  with l have "\<not> sublist ''```'' (py_strip (lead @ py_replace rest ''```'' []))"
    by (rule ws_then_fence_free)
  then show ?thesis unfolding 1 .
qed

lemma strip_fences_fallback:
  assumes "prefix ''```'' (py_strip raw)"
    and "\<not> closing_fence_found (if prefix ''```json'' (py_strip raw) then ''```json'' else ''```'') raw"
  shows "snd (strip_fences raw) =
           (if prefix ''```json'' (py_strip raw)
            then py_strip (py_replace (py_replace raw ''```json'' []) ''```'' [])
            else py_strip (py_replace raw ''```'' []))"
proof (cases "prefix ''```json'' (py_strip raw)")
  case True
  with assms(2) have "\<not> py_rfind raw ''```'' > py_find raw ''```json'' + int (length ''```json'')"
    by (simp add: closing_fence_found_def)
  with True show ?thesis by (simp add: strip_fences_def Let_def)
next
  case False
  with assms(2) have "\<not> py_rfind raw ''```'' > py_find raw ''```'' + int (length ''```'')"
    by (simp add: closing_fence_found_def)
  with False assms(1) show ?thesis by (simp add: strip_fences_def Let_def)
qed

lemma json_loads_event:
  "Json_loads (snd (strip_fences raw)) \<in> set (fst (response_sanitizer loads raw))"
proof -
  obtain a c where sf: "strip_fences raw = (a, c)" by (cases "strip_fences raw")
  obtain b r where pr: "parse_report loads c = (b, r)" by (cases "parse_report loads c")
  have "Json_loads c \<in> set (fst (parse_report loads c))"
    by (simp add: parse_report_def split: sum.splits exn.splits)
  with sf pr show ?thesis by (simp add: response_sanitizer_def)
qed

lemma strip_fences_brackets:
  assumes "0 < n"
  shows "strip_fences (replicate n CHR ''['') = ([], replicate n CHR ''['')"
proof (rule strip_fences_bare)
  let ?s = "replicate n CHR ''[''"
  have "?s \<noteq> []" "hd ?s = CHR ''[''" "last ?s = CHR ''[''"
    using assms by simp_all
  then have "py_strip ?s = ?s"
    by (intro py_strip_id) (simp_all add: py_isspace_def)
  moreover have "\<not> prefix ''`'' ?s"
    using assms by (cases n) simp_all
  ultimately show "\<not> prefix ''`'' (py_strip ?s)" by simp
qed

lemma recursion_limited_loads_deep:
  assumes "1000 < n"
  shows "recursion_limited_loads (replicate n CHR ''['') =
           Inl (Exception
             ''maximum recursion depth exceeded while decoding a JSON array from a unicode string'')"
  using assms by (simp add: recursion_limited_loads_def)

lemma snd_parse_report_other:
  "loads c = Inl (Exception e) \<Longrightarrow> snd (parse_report loads c) = Inl (Exception e)"
  by (simp add: parse_report_def)

lemma sublist_imp_subset: "sublist xs ys \<Longrightarrow> set xs \<subseteq> set ys"
  by (auto simp: sublist_def)

section \<open>The properties\<close>

text \<open>
  C1. For every JSON text \<open>j\<close>, the sanitizer applied to \<open>j\<close> inside a \<open>```json\<close> fence, to
  \<open>j\<close> inside a fence without a language tag, or to \<open>j\<close> alone, returns what parsing \<open>j\<close>
  directly returns. Blanks (such as the usual line breaks) may stand between the
  fences and \<open>j\<close>, and around the fenced block.
\<close>

theorem sanitizer_round_trip:
  assumes "json_text loads j"
    and "all_space lead" "all_space w1" "all_space w2" "all_space trail"
  shows "snd (response_sanitizer loads (lead @ ''```json'' @ w1 @ j @ w2 @ ''```'' @ trail)) = loads j
    \<and> snd (response_sanitizer loads (lead @ ''```'' @ w1 @ j @ w2 @ ''```'' @ trail)) = loads j
    \<and> snd (response_sanitizer loads j) = loads j"
proof -
  from assms(1) obtain v where v: "loads j = Inr v" and sv: "loads (py_strip j) = Inr v"
    and bq: "\<not> prefix ''`'' (py_strip j)" and nj: "\<not> prefix ''j'' j"
    unfolding json_text_def by (cases "loads j") auto
  have nj': "\<not> prefix ''json'' (w1 @ j @ w2 @ ''```'')"
  proof (cases w1)
    case (Cons a w)
    with assms(3) have "a \<noteq> CHR ''j''" by (auto simp: py_isspace_def)
    with Cons show ?thesis by simp
  next
    case Nil
    show ?thesis
    proof (cases j)
      case (Cons a k)
      with nj have "a \<noteq> CHR ''j''" by simp
      with Nil Cons show ?thesis by simp
    next
      case jn: Nil
      have "\<not> prefix ''json'' (w2 @ ''```'')"
        using assms(4) by (cases w2) (auto simp: py_isspace_def)
      with Nil jn show ?thesis by simp
    qed
  qed
  have 1: "snd (strip_fences (lead @ ''```json'' @ w1 @ j @ w2 @ ''```'' @ trail)) = py_strip j"
    using assms(2-5) by (rule strip_fences_json_fenced)
  have 2: "snd (strip_fences (lead @ ''```'' @ w1 @ j @ w2 @ ''```'' @ trail)) = py_strip j"
    using assms(2-5) nj' by (rule strip_fences_generic_fenced)
  have 3: "snd (strip_fences j) = j"
    using strip_fences_bare [OF bq] by simp
  show ?thesis
    unfolding snd_response_sanitizer 1 2 3
    using snd_parse_report_ok [of loads, OF sv] snd_parse_report_ok [of loads, OF v] v by simp
qed

theorem sanitizer_round_trip_witness:
  "json_text demo_loads sample_json \<and> all_space [] \<and> all_space [CHR 0x0A]
   \<and> snd (response_sanitizer demo_loads (''```json'' @ [CHR 0x0A] @ sample_json @ [CHR 0x0A] @ ''```''))
       = Inr sample_report
   \<and> snd (response_sanitizer demo_loads (''```'' @ [CHR 0x0A] @ sample_json @ [CHR 0x0A] @ ''```''))
       = Inr sample_report
   \<and> snd (response_sanitizer demo_loads sample_json) = Inr sample_report"
proof -
  have n: "all_space []" by simp
  have l: "all_space [CHR 0x0A]" by (simp add: py_isspace_def)
  show ?thesis
    using sanitizer_round_trip [OF json_text_sample n l l n] json_text_sample n l
    by (simp add: demo_loads_sample)
qed

text \<open>
  C5, as the code has it. When the parser raises \<open>JSONDecodeError\<close> on the candidate
  text, the sanitizer raises an exception whose message contains the parser's detail
  and the first 500 characters of the candidate text. When the parser raises an
  exception of another class, line 233 does not catch it and the sanitizer raises
  that same exception. Whenever the parser raises, no parsed value is returned.
\<close>

theorem parse_failure_error:
  assumes "loads (snd (strip_fences text_response)) = Inl x"
  shows "(\<forall>detail. x = JSONDecodeError detail \<longrightarrow>
            snd (response_sanitizer loads text_response)
              = Inl (Exception (parse_error_message detail (snd (strip_fences text_response))))
            \<and> sublist detail (parse_error_message detail (snd (strip_fences text_response)))
            \<and> sublist (take 500 (snd (strip_fences text_response)))
                 (parse_error_message detail (snd (strip_fences text_response))))
       \<and> (\<forall>e. x = Exception e \<longrightarrow>
            snd (response_sanitizer loads text_response) = Inl (Exception e))
       \<and> (\<forall>v. snd (response_sanitizer loads text_response) \<noteq> Inr v)"
proof -
  have 1: "snd (response_sanitizer loads text_response)
      = Inl (Exception (parse_error_message detail (snd (strip_fences text_response))))"
    if "x = JSONDecodeError detail" for detail
    unfolding snd_response_sanitizer using assms that
    by (simp add: parse_report_def)
  have 2: "sublist detail (parse_error_message detail c)" for detail c
    unfolding parse_error_message_def by (rule sublist_appendI)
  have "sublist (take 500 c) ((''AI response format error: Could not parse AI response as JSON. Details: '' @ detail
       @ ''. Raw response start: '') @ take 500 c @ ''...'')" for detail c :: string
    by (rule sublist_appendI)
  then have 3: "sublist (take 500 c) (parse_error_message detail c)" for detail c
    unfolding parse_error_message_def by simp
  have 4: "snd (response_sanitizer loads text_response) = Inl (Exception e)"
    if "x = Exception e" for e
    unfolding snd_response_sanitizer using assms that by (simp add: snd_parse_report_other)
  have 5: "snd (response_sanitizer loads text_response) \<noteq> Inr v" for v
    using 1 4 by (cases x) simp_all
  from 1 2 3 4 5 show ?thesis by blast
qed

theorem parse_failure_error_witness:
  "demo_loads (snd (strip_fences ''Sorry, I cannot help.''))
     = Inl (JSONDecodeError ''Expecting value: line 1 column 1 (char 0)'')
   \<and> snd (response_sanitizer demo_loads ''Sorry, I cannot help.'')
       = Inl (Exception ''AI response format error: Could not parse AI response as JSON. Details: Expecting value: line 1 column 1 (char 0). Raw response start: Sorry, I cannot help....'')"
proof -
  have h: "demo_loads (snd (strip_fences ''Sorry, I cannot help.''))
      = Inl (JSONDecodeError ''Expecting value: line 1 column 1 (char 0)'')"
    by code_simp
  have c: "snd (strip_fences ''Sorry, I cannot help.'') = ''Sorry, I cannot help.''"
    by code_simp
  note t = parse_failure_error [of demo_loads "''Sorry, I cannot help.''"
      "JSONDecodeError ''Expecting value: line 1 column 1 (char 0)''", OF h,
      THEN conjunct1, rule_format, OF refl, THEN conjunct1]
  from t h show ?thesis
    unfolding c parse_error_message_def by simp
qed

text \<open>
  C5, as it is stated, fails: on a text of 100000 opening brackets the parser raises
  \<open>RecursionError\<close>, the sanitizer raises that exception, and its message holds neither
  a parser detail of a \<open>JSONDecodeError\<close> nor the first 500 characters of the text.
\<close>

theorem parse_failure_not_decode_error_counterexample:
  "recursion_limited_loads (snd (strip_fences deep_reply))
     = Inl (Exception
         ''maximum recursion depth exceeded while decoding a JSON array from a unicode string'')
   \<and> snd (response_sanitizer recursion_limited_loads deep_reply)
     = Inl (Exception
         ''maximum recursion depth exceeded while decoding a JSON array from a unicode string'')
   \<and> \<not> sublist (take 500 (snd (strip_fences deep_reply)))
         ''maximum recursion depth exceeded while decoding a JSON array from a unicode string''"
proof -
  have s: "snd (strip_fences deep_reply) = deep_reply"
    unfolding deep_reply_def by (simp add: strip_fences_brackets)
  have l: "recursion_limited_loads deep_reply
     = Inl (Exception
         ''maximum recursion depth exceeded while decoding a JSON array from a unicode string'')"
    unfolding deep_reply_def by (rule recursion_limited_loads_deep) simp
  have r: "snd (response_sanitizer recursion_limited_loads deep_reply)
     = Inl (Exception
         ''maximum recursion depth exceeded while decoding a JSON array from a unicode string'')"
    unfolding snd_response_sanitizer s using l by (rule snd_parse_report_other)
  have "CHR ''['' \<in> set (take 500 deep_reply)"
    unfolding deep_reply_def by simp
  moreover have "CHR ''['' \<notin> set
      ''maximum recursion depth exceeded while decoding a JSON array from a unicode string''"
    by simp
  ultimately have n: "\<not> sublist (take 500 deep_reply)
      ''maximum recursion depth exceeded while decoding a JSON array from a unicode string''"
    using sublist_imp_subset by blast
  from l r n show ?thesis unfolding s by (intro conjI)
qed

text \<open>
  C6. For every \<open>.docx\<close> file that is read and opened without an error, the extraction
  returns the texts of all paragraphs in document order, each followed by a line
  break whether it is empty or not, with the blanks at both ends of the whole removed.
\<close>

theorem docx_extraction:
  assumes "map py_lower (snd (splitext (name f))) = ''.docx''"
    and "read f = Inr content" and "Document libs content = Inr paragraphs"
  shows "snd (extract_text_from_resume libs f)
           = Inr (Some (py_strip (concat (map (\<lambda>p. p @ [CHR 0x0A]) paragraphs))))"
  using assms
  by (simp add: snd_extract extract_body_def file_extension_of_def docx_paragraphs_eq)

theorem docx_extraction_witness:
  "map py_lower (snd (splitext (name (demo_file ''cv.DOCX'')))) = ''.docx''
   \<and> read (demo_file ''cv.DOCX'') = Inr []
   \<and> Document (demo_libs [] ['''', ''Jane Doe'', '''', ''Engineer'', '' ''] []) [] = Inr ['''', ''Jane Doe'', '''', ''Engineer'', '' '']
   \<and> snd (extract_text_from_resume (demo_libs [] ['''', ''Jane Doe'', '''', ''Engineer'', '' ''] []) (demo_file ''cv.DOCX''))
       = Inr (Some (''Jane Doe'' @ [CHR 0x0A, CHR 0x0A] @ ''Engineer''))"
proof -
  have e: "map py_lower (snd (splitext (name (demo_file ''cv.DOCX'')))) = ''.docx''"
    by code_simp
  have r: "read (demo_file ''cv.DOCX'') = Inr []" by (simp add: demo_file_def)
  have d: "Document (demo_libs [] ['''', ''Jane Doe'', '''', ''Engineer'', '' ''] []) [] = Inr ['''', ''Jane Doe'', '''', ''Engineer'', '' '']"
    by (simp add: demo_libs_def)
  have s: "py_strip (concat (map (\<lambda>p. p @ [CHR 0x0A]) ['''', ''Jane Doe'', '''', ''Engineer'', '' '']))
      = ''Jane Doe'' @ [CHR 0x0A, CHR 0x0A] @ ''Engineer''"
    by code_simp
  show ?thesis
    using docx_extraction [OF e r d] e r d unfolding s by simp
qed

text \<open>
  C8. For every file whose extension, in lower case, is neither \<open>.pdf\<close> nor \<open>.docx\<close>, the
  extraction returns \<open>None\<close>, and neither \<open>PdfReader\<close> nor \<open>Document\<close> is called nor any page
  text extracted; when the file can be read, all that happens is the read and the
  warning about the unsupported file type.
\<close>

theorem unsupported_extension:
  assumes "map py_lower (snd (splitext (name f))) \<noteq> ''.pdf''"
    and "map py_lower (snd (splitext (name f))) \<noteq> ''.docx''"
  shows "snd (extract_text_from_resume libs f) = Inr None
       \<and> Open_PdfReader \<notin> set (fst (extract_text_from_resume libs f))
       \<and> Open_Document \<notin> set (fst (extract_text_from_resume libs f))
       \<and> (\<forall>k. Page_extract_text k \<notin> set (fst (extract_text_from_resume libs f)))
       \<and> (\<forall>content. read f = Inr content \<longrightarrow>
            fst (extract_text_from_resume libs f) =
              [Read_file, Log WARNING (''Unsupported file type for text extraction: ''
                 @ map py_lower (snd (splitext (name f))))])"
proof -
  have a: "file_extension_of f \<noteq> ''.pdf''" "file_extension_of f \<noteq> ''.docx''"
    using assms by (simp_all add: file_extension_of_def)
  note u = extract_unsupported [where libs = libs, OF a]
  have "Open_PdfReader \<notin> set (fst (extract_text_from_resume libs f))
       \<and> Open_Document \<notin> set (fst (extract_text_from_resume libs f))
       \<and> (\<forall>k. Page_extract_text k \<notin> set (fst (extract_text_from_resume libs f)))"
  proof (cases "read f")
    case (Inl e)
    from u(3) [OF this] show ?thesis by simp
  next
    case (Inr content)
    from u(2) [OF this] show ?thesis by simp
  qed
  moreover have "\<forall>content. read f = Inr content \<longrightarrow>
            fst (extract_text_from_resume libs f) =
              [Read_file, Log WARNING (''Unsupported file type for text extraction: ''
                 @ map py_lower (snd (splitext (name f))))]"
    using u(2) by (simp add: file_extension_of_def)
  ultimately show ?thesis using u(1) by simp
qed

theorem unsupported_extension_witness:
  "map py_lower (snd (splitext (name (demo_file ''Notes.TXT'')))) \<noteq> ''.pdf''
   \<and> map py_lower (snd (splitext (name (demo_file ''Notes.TXT'')))) \<noteq> ''.docx''
   \<and> extract_text_from_resume (demo_libs [Inr ''page''] [''paragraph''] []) (demo_file ''Notes.TXT'')
       = ([Read_file, Log WARNING ''Unsupported file type for text extraction: .txt''], Inr None)"
proof -
  have e: "map py_lower (snd (splitext (name (demo_file ''Notes.TXT'')))) = ''.txt''"
    by code_simp
  have 1: "map py_lower (snd (splitext (name (demo_file ''Notes.TXT'')))) \<noteq> ''.pdf''"
    and 2: "map py_lower (snd (splitext (name (demo_file ''Notes.TXT'')))) \<noteq> ''.docx''"
    unfolding e by simp_all
  have r: "read (demo_file ''Notes.TXT'') = Inr []" by (simp add: demo_file_def)
  show ?thesis
    using unsupported_extension [OF 1 2, of "demo_libs [Inr ''page''] [''paragraph''] []"] r 1 2
    unfolding e by (simp add: prod_eq_iff)
qed

text \<open>
  C9. The extraction never raises: whatever \<open>read\<close>, \<open>PdfReader\<close>, a page's \<open>extract_text\<close> or
  \<open>Document\<close> raises is caught, and the extraction returns \<open>None\<close>.
\<close>

theorem extraction_exceptions_caught:
  "(\<forall>e. snd (extract_text_from_resume libs f) \<noteq> Inl e)
   \<and> (\<forall>e. read f = Inl e \<longrightarrow> snd (extract_text_from_resume libs f) = Inr None)
   \<and> (\<forall>content e. read f = Inr content
          \<and> map py_lower (snd (splitext (name f))) = ''.pdf''
          \<and> PdfReader libs content = Inl e
        \<longrightarrow> snd (extract_text_from_resume libs f) = Inr None)
   \<and> (\<forall>content pages e. read f = Inr content
          \<and> map py_lower (snd (splitext (name f))) = ''.pdf''
          \<and> PdfReader libs content = Inr pages \<and> Inl e \<in> set pages
        \<longrightarrow> snd (extract_text_from_resume libs f) = Inr None)
   \<and> (\<forall>content e. read f = Inr content
          \<and> map py_lower (snd (splitext (name f))) = ''.docx''
          \<and> Document libs content = Inl e
        \<longrightarrow> snd (extract_text_from_resume libs f) = Inr None)"
proof (intro conjI allI impI)
  fix e show "snd (extract_text_from_resume libs f) \<noteq> Inl e"
    by (rule extract_never_raises)
next
  fix e assume "read f = Inl e"
  then show "snd (extract_text_from_resume libs f) = Inr None"
    by (simp add: snd_extract extract_body_def)
next
  fix content e
  assume "read f = Inr content \<and> map py_lower (snd (splitext (name f))) = ''.pdf''
          \<and> PdfReader libs content = Inl e"
  then show "snd (extract_text_from_resume libs f) = Inr None"
    by (simp add: snd_extract extract_body_def file_extension_of_def)
next
  fix content pages e
  assume a: "read f = Inr content \<and> map py_lower (snd (splitext (name f))) = ''.pdf''
          \<and> PdfReader libs content = Inr pages \<and> Inl e \<in> set pages"
  then obtain e' where "snd (pdf_pages pages 0 []) = Inl e'"
    using pdf_pages_raise by blast
  then obtain evs where "pdf_pages pages 0 [] = (evs, Inl e')"
    by (cases "pdf_pages pages 0 []") simp
  with a show "snd (extract_text_from_resume libs f) = Inr None"
    by (simp add: snd_extract extract_body_def file_extension_of_def)
next
  fix content e
  assume "read f = Inr content \<and> map py_lower (snd (splitext (name f))) = ''.docx''
          \<and> Document libs content = Inl e"
  then show "snd (extract_text_from_resume libs f) = Inr None"
    by (simp add: snd_extract extract_body_def file_extension_of_def)
qed

theorem extraction_exceptions_caught_witness:
  "read (demo_file ''cv.pdf'') = Inr []
   \<and> map py_lower (snd (splitext (name (demo_file ''cv.pdf'')))) = ''.pdf''
   \<and> PdfReader broken_libs [] = Inl (Exception ''EOF marker not found'')
   \<and> snd (extract_text_from_resume broken_libs (demo_file ''cv.pdf'')) = Inr None"
proof -
  have r: "read (demo_file ''cv.pdf'') = Inr []" by (simp add: demo_file_def)
  have e: "map py_lower (snd (splitext (name (demo_file ''cv.pdf'')))) = ''.pdf''"
    by code_simp
  have p: "PdfReader broken_libs [] = Inl (Exception ''EOF marker not found'')"
    by (simp add: broken_libs_def)
  note t = extraction_exceptions_caught [of broken_libs "demo_file ''cv.pdf''",
      THEN conjunct2, THEN conjunct2, THEN conjunct1, rule_format,
      of "[]" "Exception ''EOF marker not found''"]
  from t [OF conjI [OF r conjI [OF e p]]] r e p show ?thesis by (intro conjI)
qed

text \<open>
  C10. For every file whose name has no dot, \<open>splitext\<close> gives the empty extension, the
  extraction returns \<open>None\<close>, and the handler (given this file, which as an uploaded
  file has a name) answers with the 400 response "Could not extract text ..." and
  does not raise.
\<close>

theorem no_extension_client_error:
  assumes "CHR ''.'' \<notin> set (name f)"
  shows "snd (splitext (name f)) = []
       \<and> snd (extract_text_from_resume libs f) = Inr None
       \<and> (FILES request ''resume_file'' = Some f \<and> name f \<noteq> [] \<longrightarrow>
            snd (post libs request) = Inr extraction_failed_response)"
proof -
  have s: "snd (splitext (name f)) = []"
    using splitext_no_dot [OF assms] by simp
  then have a: "file_extension_of f \<noteq> ''.pdf''" "file_extension_of f \<noteq> ''.docx''"
    by (simp_all add: file_extension_of_def)
  have n: "snd (extract_text_from_resume libs f) = Inr None"
    using a by (rule extract_unsupported(1))
  have "snd (post libs request) = Inr extraction_failed_response"
    if "FILES request ''resume_file'' = Some f" "name f \<noteq> []"
    using that n by (simp add: post_extraction_failed(1))
  with s n show ?thesis by simp
qed

theorem no_extension_client_error_witness:
  "CHR ''.'' \<notin> set (name (demo_file ''resume''))
   \<and> FILES (demo_request (demo_file ''resume'')) ''resume_file'' = Some (demo_file ''resume'')
   \<and> name (demo_file ''resume'') \<noteq> []
   \<and> snd (post (demo_libs [Inr ''page''] [''paragraph''] []) (demo_request (demo_file ''resume'')))
       = Inr \<lparr>status = 400, success = False,
              message = ''Could not extract text from resume file. Please ensure it's a valid PDF or DOCX and not scanned image.'',
              report = None\<rparr>"
proof -
  have d: "CHR ''.'' \<notin> set (name (demo_file ''resume''))" by (simp add: demo_file_def)
  have f: "FILES (demo_request (demo_file ''resume'')) ''resume_file'' = Some (demo_file ''resume'')"
    by (simp add: demo_request_def)
  have n: "name (demo_file ''resume'') \<noteq> []" by (simp add: demo_file_def)
  show ?thesis
    using no_extension_client_error [OF d, of "demo_libs [Inr ''page''] [''paragraph''] []"
        "demo_request (demo_file ''resume'')"] d f n
    by (simp add: extraction_failed_response_def)
qed

text \<open>
  C2. An empty text is never a success of the extraction. The method itself returns
  the stripped text, which is the empty string when the text gathered from the file
  is empty or made of blanks only; the handler treats that string like \<open>None\<close>: it
  answers with the 400 response "Could not extract text ..." and does not call the
  model. Every prompt the handler sends holds a resume text that is not blank.
\<close>

theorem empty_extraction_is_failure:
  assumes "FILES request ''resume_file'' = Some f" "name f \<noteq> []"
  shows "(\<forall>acc. snd (extract_body libs f (file_extension_of f)) = Inr (Fall_through acc)
            \<and> all_space acc
          \<longrightarrow> snd (extract_text_from_resume libs f) = Inr (Some []))
       \<and> (snd (extract_text_from_resume libs f) = Inr None
            \<or> snd (extract_text_from_resume libs f) = Inr (Some [])
          \<longrightarrow> snd (post libs request) = Inr extraction_failed_response
              \<and> (\<forall>p. Generate_content p \<notin> set (fst (post libs request))))
       \<and> (\<forall>p. Generate_content p \<in> set (fst (post libs request))
          \<longrightarrow> \<not> all_space (prompt_resume_text p))"
proof (intro conjI allI impI)
  fix acc
  assume "snd (extract_body libs f (file_extension_of f)) = Inr (Fall_through acc) \<and> all_space acc"
  then show "snd (extract_text_from_resume libs f) = Inr (Some [])"
    by (simp add: snd_extract py_strip_all_space)
next
  assume a: "snd (extract_text_from_resume libs f) = Inr None
            \<or> snd (extract_text_from_resume libs f) = Inr (Some [])"
  from assms a show "snd (post libs request) = Inr extraction_failed_response"
    by (rule post_extraction_failed(1))
  fix p
  from assms a show "Generate_content p \<notin> set (fst (post libs request))"
    by (rule post_extraction_failed(2))
next
  fix p
  assume "Generate_content p \<in> set (fst (post libs request))"
  with assms show "\<not> all_space (prompt_resume_text p)"
    by (rule post_generate_event)
qed

theorem empty_extraction_is_failure_witness:
  "FILES (demo_request (demo_file ''scan.docx'')) ''resume_file'' = Some (demo_file ''scan.docx'')
   \<and> name (demo_file ''scan.docx'') \<noteq> []
   \<and> snd (extract_text_from_resume (demo_libs [] ['''', '' ''] ''{}'') (demo_file ''scan.docx''))
       = Inr (Some [])
   \<and> snd (post (demo_libs [] ['''', '' ''] ''{}'') (demo_request (demo_file ''scan.docx'')))
       = Inr \<lparr>status = 400, success = False,
              message = ''Could not extract text from resume file. Please ensure it's a valid PDF or DOCX and not scanned image.'',
              report = None\<rparr>"
proof -
  have f: "FILES (demo_request (demo_file ''scan.docx'')) ''resume_file'' = Some (demo_file ''scan.docx'')"
    by (simp add: demo_request_def)
  have n: "name (demo_file ''scan.docx'') \<noteq> []" by (simp add: demo_file_def)
  have x: "snd (extract_text_from_resume (demo_libs [] ['''', '' ''] ''{}'') (demo_file ''scan.docx''))
       = Inr (Some [])"
    by code_simp
  note t = empty_extraction_is_failure [OF f n, of "demo_libs [] ['''', '' ''] ''{}''",
      THEN conjunct2, THEN conjunct1, rule_format, THEN conjunct1]
  from t [OF disjI2 [OF x]] f n x show ?thesis
    by (simp add: extraction_failed_response_def)
qed

text \<open>
  C3. When the candidate text of the model's reply parses, the sanitizer returns the
  parsed value as it is and the handler puts it unchanged into the 200 response. The
  statement holds for every type of parsed values and every parser, so no key is
  looked for and no number is checked or clamped.
\<close>

theorem report_returned_verbatim:
  assumes "FILES request ''resume_file'' = Some f" "name f \<noteq> []"
    and "snd (extract_text_from_resume libs f) = Inr (Some resume_text)" "resume_text \<noteq> []"
    and "generate_content libs
           (build_prompt resume_text (data_get request ''job_description'' [])
              (data_get request ''job_category'' ''General'')
              (data_get request ''specific_role'' ''Applicant'')) = Inr text_response"
    and "json_loads libs (snd (strip_fences text_response)) = Inr parsed_report"
  shows "snd (response_sanitizer (json_loads libs) text_response) = Inr parsed_report
       \<and> snd (post libs request)
           = Inr \<lparr>status = 200, success = True, message = ''Analysis complete.'',
                  report = Some parsed_report\<rparr>"
proof -
  have 1: "snd (response_sanitizer (json_loads libs) text_response) = Inr parsed_report"
    unfolding snd_response_sanitizer using assms(6) by (rule snd_parse_report_ok)
  have 2: "snd (get_gemini_analysis libs resume_text (data_get request ''job_description'' [])
              (data_get request ''job_category'' ''General'')
              (data_get request ''specific_role'' ''Applicant'')) = Inr parsed_report"
    using snd_gemini_ok [OF assms(5)] 1 by simp
  show ?thesis
    using post_analysed(1) [OF assms(1-4)] 1 2 by simp
qed

theorem report_returned_verbatim_witness:
  "FILES (demo_request (demo_file ''cv.docx'')) ''resume_file'' = Some (demo_file ''cv.docx'')
   \<and> name (demo_file ''cv.docx'') \<noteq> []
   \<and> snd (extract_text_from_resume (demo_libs [] [''Jane Doe''] fenced_reply) (demo_file ''cv.docx''))
       = Inr (Some ''Jane Doe'')
   \<and> json_loads (demo_libs [] [''Jane Doe''] fenced_reply) (snd (strip_fences fenced_reply))
       = Inr sample_report
   \<and> snd (post (demo_libs [] [''Jane Doe''] fenced_reply) (demo_request (demo_file ''cv.docx'')))
       = Inr \<lparr>status = 200, success = True, message = ''Analysis complete.'',
              report = Some (JObject [(''overall_fit_score'', JInt 250), (''strengths'', JArray [])])\<rparr>"
proof -
  let ?libs = "demo_libs [] [''Jane Doe''] fenced_reply"
  have f: "FILES (demo_request (demo_file ''cv.docx'')) ''resume_file'' = Some (demo_file ''cv.docx'')"
    by (simp add: demo_request_def)
  have n: "name (demo_file ''cv.docx'') \<noteq> []" by (simp add: demo_file_def)
  have x: "snd (extract_text_from_resume ?libs (demo_file ''cv.docx'')) = Inr (Some ''Jane Doe'')"
    by code_simp
  have t: "''Jane Doe'' \<noteq> []" by simp
  have g: "generate_content ?libs
           (build_prompt ''Jane Doe'' (data_get (demo_request (demo_file ''cv.docx'')) ''job_description'' [])
              (data_get (demo_request (demo_file ''cv.docx'')) ''job_category'' ''General'')
              (data_get (demo_request (demo_file ''cv.docx'')) ''specific_role'' ''Applicant'')) = Inr fenced_reply"
    by (simp add: demo_libs_def)
  have j: "json_loads ?libs (snd (strip_fences fenced_reply)) = Inr sample_report"
    unfolding sample_report_def by code_simp
  from report_returned_verbatim [OF f n x t g j] f n x j show ?thesis
    by (simp add: sample_report_def)
qed

text \<open>
  C7, as the code has it. For every \<open>.pdf\<close> file that is read and opened and whose pages
  are all extracted without an error, the extraction returns the texts of the pages
  in page order, each followed by a line break, a page without text adding nothing,
  with the blanks at both ends of the whole removed. If the text of some page has a
  character that is not a blank, the result is not empty. The result contains the
  stripped text of every page, and it is the whole concatenation but for blanks at
  its two ends.
\<close>

theorem pdf_extraction:
  assumes "map py_lower (snd (splitext (name f))) = ''.pdf''"
    and "read f = Inr content" and "PdfReader libs content = Inr (map Inr ts)"
  shows "snd (extract_text_from_resume libs f)
           = Inr (Some (py_strip (concat (map (\<lambda>t. t @ [CHR 0x0A]) (filter (\<lambda>t. t \<noteq> []) ts)))))
       \<and> ((\<exists>t\<in>set ts. \<not> all_space t) \<longrightarrow>
            py_strip (concat (map (\<lambda>t. t @ [CHR 0x0A]) (filter (\<lambda>t. t \<noteq> []) ts))) \<noteq> [])
       \<and> (\<forall>t\<in>set ts. sublist (py_strip t)
            (py_strip (concat (map (\<lambda>t. t @ [CHR 0x0A]) (filter (\<lambda>t. t \<noteq> []) ts)))))
       \<and> (\<exists>a b. all_space a \<and> all_space b
            \<and> concat (map (\<lambda>t. t @ [CHR 0x0A]) (filter (\<lambda>t. t \<noteq> []) ts))
                = a @ py_strip (concat (map (\<lambda>t. t @ [CHR 0x0A]) (filter (\<lambda>t. t \<noteq> []) ts))) @ b)"
proof -
  obtain evs where "pdf_pages (map Inr ts) 0 []
      = (evs, Inr (concat (map (\<lambda>t. t @ [CHR 0x0A]) (filter (\<lambda>t. t \<noteq> []) ts))))"
    using pdf_pages_ok [of ts 0 "[]"] by (cases "pdf_pages (map Inr ts) 0 []") simp
  with assms have 1: "snd (extract_text_from_resume libs f)
           = Inr (Some (py_strip (concat (map (\<lambda>t. t @ [CHR 0x0A]) (filter (\<lambda>t. t \<noteq> []) ts)))))"
    by (simp add: snd_extract extract_body_def file_extension_of_def)
  have 2: "(\<exists>t\<in>set ts. \<not> all_space t) \<longrightarrow>
            py_strip (concat (map (\<lambda>t. t @ [CHR 0x0A]) (filter (\<lambda>t. t \<noteq> []) ts))) \<noteq> []"
    using strip_pages_nonempty by blast
  have 3: "\<forall>t\<in>set ts. sublist (py_strip t)
            (py_strip (concat (map (\<lambda>t. t @ [CHR 0x0A]) (filter (\<lambda>t. t \<noteq> []) ts))))"
    using sublist_strip_page by blast
  have 4: "\<exists>a b. all_space a \<and> all_space b
            \<and> concat (map (\<lambda>t. t @ [CHR 0x0A]) (filter (\<lambda>t. t \<noteq> []) ts))
                = a @ py_strip (concat (map (\<lambda>t. t @ [CHR 0x0A]) (filter (\<lambda>t. t \<noteq> []) ts))) @ b"
    by (rule py_strip_decomp)
  from 1 2 3 4 show ?thesis by (intro conjI)
qed

theorem pdf_extraction_witness:
  "map py_lower (snd (splitext (name (demo_file ''cv.PDF'')))) = ''.pdf''
   \<and> read (demo_file ''cv.PDF'') = Inr []
   \<and> PdfReader (demo_libs [Inr '' Jane Doe'', Inr [], Inr ''Engineer ''] [] []) []
       = Inr (map Inr ['' Jane Doe'', [], ''Engineer ''])
   \<and> snd (extract_text_from_resume (demo_libs [Inr '' Jane Doe'', Inr [], Inr ''Engineer ''] [] [])
        (demo_file ''cv.PDF''))
       = Inr (Some (''Jane Doe'' @ [CHR 0x0A] @ ''Engineer''))"
proof -
  have e: "map py_lower (snd (splitext (name (demo_file ''cv.PDF'')))) = ''.pdf''"
    by code_simp
  have r: "read (demo_file ''cv.PDF'') = Inr []" by (simp add: demo_file_def)
  have p: "PdfReader (demo_libs [Inr '' Jane Doe'', Inr [], Inr ''Engineer ''] [] []) []
       = Inr (map Inr ['' Jane Doe'', [], ''Engineer ''])"
    by (simp add: demo_libs_def)
  have s: "py_strip (concat (map (\<lambda>t. t @ [CHR 0x0A]) (filter (\<lambda>t. t \<noteq> []) ['' Jane Doe'', [], ''Engineer ''])))
      = ''Jane Doe'' @ [CHR 0x0A] @ ''Engineer''"
    by code_simp
  from pdf_extraction [OF e r p, THEN conjunct1] e r p show ?thesis
    unfolding s by (intro conjI)
qed

text \<open>
  C7, as it is stated, fails: a page whose text is one space has text extracted from
  it (line 112 takes it), yet the result is the empty string; and the text of a
  page that starts with a space is not contained in the result as it is.
\<close>

theorem pdf_blank_page_counterexample:
  "snd (extract_text_from_resume (demo_libs [Inr '' ''] [] []) (demo_file ''cv.pdf'')) = Inr (Some [])
   \<and> snd (extract_text_from_resume (demo_libs [Inr '' Jane''] [] []) (demo_file ''cv.pdf''))
       = Inr (Some ''Jane'')
   \<and> \<not> sublist '' Jane'' ''Jane''"
  by code_simp

text \<open>
  C4. For every reply that, blanks aside, starts with an opening fence and for which
  the test for a closing fence after the opening fails, the candidate text is the
  reply with the occurrences of the fence markers removed by \<open>str.replace\<close> (of both
  markers after a \<open>```json\<close> opening, of the plain fence after an untagged opening) and
  then stripped; no fence is left in it; and it is this text that is handed to the
  parser, whose outcome is the outcome of the sanitizer.
\<close>

theorem fallback_strips_fences:
  assumes "prefix ''```'' (py_strip raw)"
    and "\<not> closing_fence_found (if prefix ''```json'' (py_strip raw) then ''```json'' else ''```'') raw"
  shows "snd (strip_fences raw) =
           (if prefix ''```json'' (py_strip raw)
            then py_strip (py_replace (py_replace raw ''```json'' []) ''```'' [])
            else py_strip (py_replace raw ''```'' []))
       \<and> \<not> sublist ''```'' (snd (strip_fences raw))
       \<and> Json_loads (snd (strip_fences raw)) \<in> set (fst (response_sanitizer loads raw))
       \<and> snd (response_sanitizer loads raw) = snd (parse_report loads (snd (strip_fences raw)))"
proof -
  note 1 = strip_fences_fallback [OF assms]
  have 2: "\<not> sublist ''```'' (snd (strip_fences raw))"
  proof (cases "prefix ''```json'' (py_strip raw)")
    case True
    with assms(2) have "\<not> closing_fence_found ''```json'' raw" by simp
    with True have "\<not> sublist ''```'' (py_strip (py_replace (py_replace raw ''```json'' []) ''```'' []))"
      by (rule fallback_json_fence_free)
    with 1 True show ?thesis by simp
  next
    case False
    with assms(2) have "\<not> closing_fence_found ''```'' raw" by simp
    with assms(1) have "\<not> sublist ''```'' (py_strip (py_replace raw ''```'' []))"
      by (rule fallback_generic_fence_free)
    with 1 False show ?thesis by simp
  qed
  from 1 2 json_loads_event snd_response_sanitizer show ?thesis by (intro conjI)
qed

theorem fallback_strips_fences_witness:
  "prefix ''```'' (py_strip unclosed_reply)
   \<and> \<not> closing_fence_found
        (if prefix ''```json'' (py_strip unclosed_reply) then ''```json'' else ''```'') unclosed_reply
   \<and> snd (strip_fences unclosed_reply) = sample_json
   \<and> \<not> sublist ''```'' sample_json
   \<and> snd (response_sanitizer demo_loads unclosed_reply) = Inr sample_report"
proof -
  have p: "prefix ''```'' (py_strip unclosed_reply)"
    unfolding unclosed_reply_def sample_json_def by code_simp
  have c: "\<not> closing_fence_found
        (if prefix ''```json'' (py_strip unclosed_reply) then ''```json'' else ''```'') unclosed_reply"
    unfolding unclosed_reply_def sample_json_def by code_simp
  have s: "snd (strip_fences unclosed_reply) = sample_json"
    unfolding unclosed_reply_def sample_json_def by code_simp
  have r: "snd (parse_report demo_loads sample_json) = Inr sample_report"
    using demo_loads_sample by (rule snd_parse_report_ok)
  from fallback_strips_fences [OF p c, of demo_loads] p c show ?thesis
    unfolding s r by (intro conjI) simp_all
qed

end
